theory Spec2Isabelle
  imports Complex_Main "HOL-Library.Log_Nat" "HOL-Library.Sublist"
begin

section \<open>JavaScript numbers\<close>

text \<open>
  A JavaScript number is an IEEE 754 double: a finite value, one of the two infinities, or
  \<^verbatim>\<open>NaN\<close>. A finite double is written as the rational it denotes, so the two zeros are
  one value; no code below divides by a zero or otherwise tells them apart.
\<close>

datatype jsnum = Finite rat | PosInf | NegInf | NaN

text \<open>
  Rounding to the nearest double, ties to the even significand. For a positive \<open>a\<close>,
  \<open>floor_log2 a\<close> is the exponent \<open>e\<close> with \<open>2 ^ e \<le> a < 2 ^ (e + 1)\<close>. A double has 53
  significant bits, so the unit in the last place of \<open>r\<close> is \<open>2 ^ p\<close> with
  \<open>p = floor_log2 \<bar>r\<bar> - 52\<close>, and never below \<open>2 ^ (- 1074)\<close> (the subnormal range); a
  rounded value of magnitude \<open>2 ^ 1024\<close> or more overflows to an infinity.
  The rationals that are doubles are those that rounding leaves as they are.
\<close>

definition floor_log2 :: "rat \<Rightarrow> int" where
  "floor_log2 a = (if 1 \<le> a then bitlen \<lfloor>a\<rfloor> - 1 else - bitlen (\<lceil>1 / a\<rceil> - 1))"

definition round_even :: "rat \<Rightarrow> int" where
  "round_even q =
     (let f = \<lfloor>q\<rfloor>; d = q - of_int f
      in if d < 1 / 2 then f else if 1 / 2 < d then f + 1 else if even f then f else f + 1)"

definition to_double :: "rat \<Rightarrow> jsnum" where
  "to_double r =
     (if r = 0 then Finite 0
      else
        (let p = max (floor_log2 \<bar>r\<bar> - 52) (- 1074);
             v = of_int (round_even (r / 2 powi p)) * 2 powi p
         in if 2 ^ 1024 \<le> \<bar>v\<bar> then (if 0 < r then PosInf else NegInf) else Finite v))"

definition is_double :: "rat \<Rightarrow> bool" where
  "is_double r \<longleftrightarrow> to_double r = Finite r"

text \<open>
  The operators the code applies to numbers. \<^verbatim>\<open>a + b\<close>, \<^verbatim>\<open>a - b\<close> and \<^verbatim>\<open>a * b\<close>
  round the exact result; \<^verbatim>\<open>a / 2\<close> and \<^verbatim>\<open>a % 2\<close> occur with the literal \<open>2\<close> only. The
  remainder has the sign of the dividend (the quotient is truncated) and is exact.
  \<^verbatim>\<open>Math.floor\<close> of a double is a double.
\<close>

definition js_neg :: "jsnum \<Rightarrow> jsnum" where
  "js_neg a = (case a of Finite r \<Rightarrow> Finite (- r) | PosInf \<Rightarrow> NegInf | NegInf \<Rightarrow> PosInf
               | NaN \<Rightarrow> NaN)"

fun js_add :: "jsnum \<Rightarrow> jsnum \<Rightarrow> jsnum" where
  "js_add (Finite a) (Finite b) = to_double (a + b)"
| "js_add NaN b = NaN"
| "js_add a NaN = NaN"
| "js_add PosInf NegInf = NaN"
| "js_add NegInf PosInf = NaN"
| "js_add PosInf b = PosInf"
| "js_add NegInf b = NegInf"
| "js_add (Finite a) b = b"

definition js_sub :: "jsnum \<Rightarrow> jsnum \<Rightarrow> jsnum" where
  "js_sub a b = js_add a (js_neg b)"

definition js_sign :: "jsnum \<Rightarrow> int" where
  "js_sign a = (case a of Finite r \<Rightarrow> (if r = 0 then 0 else if 0 < r then 1 else - 1)
                | PosInf \<Rightarrow> 1 | NegInf \<Rightarrow> - 1 | NaN \<Rightarrow> 0)"

fun js_mul :: "jsnum \<Rightarrow> jsnum \<Rightarrow> jsnum" where
  "js_mul (Finite a) (Finite b) = to_double (a * b)"
| "js_mul NaN b = NaN"
| "js_mul a NaN = NaN"
| "js_mul a b = (let s = js_sign a * js_sign b
                 in if s = 0 then NaN else if 0 < s then PosInf else NegInf)"

definition js_half :: "jsnum \<Rightarrow> jsnum" where
  "js_half a = (case a of Finite r \<Rightarrow> to_double (r / 2) | PosInf \<Rightarrow> PosInf
                | NegInf \<Rightarrow> NegInf | NaN \<Rightarrow> NaN)"

definition js_floor :: "jsnum \<Rightarrow> jsnum" where
  "js_floor a = (case a of Finite r \<Rightarrow> Finite (of_int \<lfloor>r\<rfloor>) | PosInf \<Rightarrow> PosInf
                 | NegInf \<Rightarrow> NegInf | NaN \<Rightarrow> NaN)"

definition js_rem2 :: "jsnum \<Rightarrow> jsnum" where
  "js_rem2 a = (case a of
       Finite r \<Rightarrow> Finite (r - 2 * of_int (if 0 \<le> r then \<lfloor>r / 2\<rfloor> else \<lceil>r / 2\<rceil>))
     | PosInf \<Rightarrow> NaN | NegInf \<Rightarrow> NaN | NaN \<Rightarrow> NaN)"

text \<open>\<^verbatim>\<open>!n\<close> holds of the zeros and of \<^verbatim>\<open>NaN\<close>; \<^verbatim>\<open>n >= 0\<close> fails for \<^verbatim>\<open>NaN\<close>.\<close>

definition js_falsy :: "jsnum \<Rightarrow> bool" where
  "js_falsy n \<longleftrightarrow> n = Finite 0 \<or> n = NaN"


section \<open>Data model\<close>

text \<open>
  The frozen object shapes of \<^verbatim>\<open>state/stateManager.js\<close>. Canvas coordinates, depths
  and branch indices are JavaScript numbers (\<open>jsnum\<close>). A field that may be \<^verbatim>\<open>null\<close> or \<^verbatim>\<open>undefined\<close> is an
  \<open>option\<close>. Field names carry a prefix where the bare name would become a constant
  that clashes with a variable (\<open>x\<close>, \<open>y\<close>, \<open>name\<close>, \<open>text\<close>, \<open>items\<close>).
\<close>

record item =
  item_id :: string
  origin_item_id :: string
  item_text :: string
  baseline_rubric :: "string list"
  current_rubric :: "string list"
  dimension :: string
  rubric_source :: string

record dimension_rec =
  dim_name :: string
  dim_items :: "item list"

record point =
  pos_x :: jsnum
  pos_y :: jsnum

record scale =
  scale_id :: string
  scale_name :: string
  parent_scale_id :: "string option"
  is_root :: bool
  expanded :: bool
  depth :: "jsnum option"
  branch_index :: "jsnum option"
  position :: "point option"
  positionLocked :: bool
  dimensions :: "dimension_rec list"

text \<open>
  A JavaScript \<^verbatim>\<open>Map\<close> iterates in insertion order: an association list of
  (key, value) entries. A JavaScript \<^verbatim>\<open>Set\<close> of strings also iterates in insertion
  order: a list of its members, \<^verbatim>\<open>has\<close> is membership and \<^verbatim>\<open>add\<close> appends a
  member that is not there yet.
\<close>

type_synonym ('k, 'v) js_map = "('k \<times> 'v) list"

definition map_has :: "('k, 'v) js_map \<Rightarrow> 'k \<Rightarrow> bool" where
  "map_has m k = (k \<in> fst ` set m)"

definition map_get :: "('k, 'v) js_map \<Rightarrow> 'k \<Rightarrow> 'v option" where
  "map_get m k = map_of m k"

definition map_delete :: "('k, 'v) js_map \<Rightarrow> 'k \<Rightarrow> ('k, 'v) js_map" where
  "map_delete m k = filter (\<lambda>e. fst e \<noteq> k) m"


definition set_add :: "string list \<Rightarrow> string \<Rightarrow> string list" where
  "set_add s k = (if k \<in> set s then s else s @ [k])"

section \<open>Graph queries (logic/scaleGraph.js)\<close>

text \<open>
  \<^verbatim>\<open>s.parent_scale_id && ...\<close>: the parent id of a scale counts only when it is truthy,
  that is, a non-empty string. \<open>parent_link\<close> is that reading of the field.
\<close>

definition parent_link :: "scale \<Rightarrow> string option" where
  "parent_link s =
     (case parent_scale_id s of
        None \<Rightarrow> None
      | Some p \<Rightarrow> if p = [] then None else Some p)"

text \<open>
  One run of the \<^verbatim>\<open>for (const [sId, s] of scales)\<close> loop of
  \<^verbatim>\<open>buildCascadeDeleteSet\<close>, from the current \<^verbatim>\<open>toDelete\<close> and
  \<^verbatim>\<open>modified\<close>.
\<close>

fun scanScales :: "(string, scale) js_map \<Rightarrow> string list \<Rightarrow> bool \<Rightarrow> string list \<times> bool" where
  "scanScales [] toDelete modified = (toDelete, modified)"
| "scanScales ((sId, s) # rest) toDelete modified =
     (if sId \<notin> set toDelete \<and>
         (case parent_link s of None \<Rightarrow> False | Some p \<Rightarrow> p \<in> set toDelete)
      then scanScales rest (set_add toDelete sId) True
      else scanScales rest toDelete modified)"

lemma scanScales_grows:
  "scanScales xs td m = (td', m') \<Longrightarrow>
     set td \<subseteq> set td' \<and> set td' \<subseteq> set td \<union> fst ` set xs \<and> (m \<longrightarrow> m')"
proof (induction xs arbitrary: td m)
  case Nil
  then show ?case by simp
next
  case (Cons e xs)
  obtain sId s where e: "e = (sId, s)" by (cases e)
  show ?case
  proof (cases "sId \<notin> set td \<and>
      (case parent_link s of None \<Rightarrow> False | Some p \<Rightarrow> p \<in> set td)")
    case True
    with Cons.prems e have "scanScales xs (set_add td sId) True = (td', m')" by simp
    from Cons.IH [OF this] show ?thesis by (auto simp: e set_add_def split: if_splits)
  next
    case False
    with Cons.prems e have "scanScales xs td m = (td', m')" by auto
    from Cons.IH [OF this] show ?thesis by (auto simp: e)
  qed
qed

lemma scanScales_modified:
  "scanScales xs td False = (td', True) \<Longrightarrow> set td \<subset> set td'"
proof (induction xs arbitrary: td)
  case Nil
  then show ?case by simp
next
  case (Cons e xs)
  obtain sId s where e: "e = (sId, s)" by (cases e)
  show ?case
  proof (cases "sId \<notin> set td \<and>
      (case parent_link s of None \<Rightarrow> False | Some p \<Rightarrow> p \<in> set td)")
    case True
    with Cons.prems e have "scanScales xs (set_add td sId) True = (td', True)" by simp
    from scanScales_grows [OF this] True show ?thesis
      by (auto simp: set_add_def split: if_splits)
  next
    case False
    with Cons.prems e have "scanScales xs td False = (td', True)" by auto
    from Cons.IH [OF this] show ?thesis .
  qed
qed

lemma scanScales_unmodified:
  "scanScales xs td m = (td', False) \<Longrightarrow>
     td' = td \<and>
     (\<forall>(sId, s) \<in> set xs. \<forall>p. parent_link s = Some p \<longrightarrow> p \<in> set td \<longrightarrow> sId \<in> set td)"
proof (induction xs arbitrary: td m)
  case Nil
  then show ?case by simp
next
  case (Cons e xs)
  obtain sId s where e: "e = (sId, s)" by (cases e)
  show ?case
  proof (cases "sId \<notin> set td \<and>
      (case parent_link s of None \<Rightarrow> False | Some p \<Rightarrow> p \<in> set td)")
    case True
    with Cons.prems e have "scanScales xs (set_add td sId) True = (td', False)" by simp
    from scanScales_grows [OF this] show ?thesis by simp
  next
    case False
    with Cons.prems e have "scanScales xs td m = (td', False)" by auto
    from Cons.IH [OF this] False show ?thesis by (auto simp: e split: option.splits)
  qed
qed

definition pending :: "(string, scale) js_map \<Rightarrow> string list \<Rightarrow> nat" where
  "pending scales toDelete = card (fst ` set scales - set toDelete)"

lemma scanScales_pending:
  assumes "scanScales scales td False = (td', True)"
  shows "pending scales td' < pending scales td"
proof -
  from scanScales_modified [OF assms] have strict: "set td \<subset> set td'" .
  from scanScales_grows [OF assms] have sub: "set td' \<subseteq> set td \<union> fst ` set scales" by simp
  have "fst ` set scales - set td' \<subset> fst ` set scales - set td"
    using strict sub by blast
  then show ?thesis
    unfolding pending_def by (intro psubset_card_mono) auto
qed

text \<open>
  The \<^verbatim>\<open>while (modified)\<close> loop: a pass that adds nothing is the last one. Every other
  pass moves a key of the collection into \<^verbatim>\<open>toDelete\<close>, which is the termination
  argument.
\<close>

function cascadeLoop :: "(string, scale) js_map \<Rightarrow> string list \<Rightarrow> string list" where
  "cascadeLoop scales toDelete =
     (case scanScales scales toDelete False of
        (toDelete', modified) \<Rightarrow> if modified then cascadeLoop scales toDelete' else toDelete')"
  by pat_completeness auto
termination
proof (relation "measure (\<lambda>(scales, toDelete). pending scales toDelete)")
  show "wf (measure (\<lambda>(scales, toDelete). pending scales toDelete))" by simp
next
  fix scales :: "(string, scale) js_map" and toDelete toDelete' modified
  assume "(toDelete', modified) = scanScales scales toDelete False" "modified"
  then have "scanScales scales toDelete False = (toDelete', True)" by simp
  from scanScales_pending [OF this]
  show "((scales, toDelete'), (scales, toDelete))
          \<in> measure (\<lambda>(scales, toDelete). pending scales toDelete)" by simp
qed

declare cascadeLoop.simps [simp del]

definition buildCascadeDeleteSet :: "(string, scale) js_map \<Rightarrow> string \<Rightarrow> string list" where
  "buildCascadeDeleteSet scales targetId = cascadeLoop scales [targetId]"

text \<open>The same loop with a budget of passes: \<open>None\<close> when the budget runs out.\<close>

fun cascadePasses :: "nat \<Rightarrow> (string, scale) js_map \<Rightarrow> string list \<Rightarrow> string list option" where
  "cascadePasses 0 scales toDelete = None"
| "cascadePasses (Suc n) scales toDelete =
     (case scanScales scales toDelete False of
        (toDelete', modified) \<Rightarrow> if modified then cascadePasses n scales toDelete' else Some toDelete')"

text \<open>
  \<^verbatim>\<open>findRoots\<close> pushes the key of every entry whose scale is flagged as root or has no
  truthy parent id; \<^verbatim>\<open>isRoot\<close> is the same test on one scale, \<open>None\<close> standing for
  \<^verbatim>\<open>null\<close> and \<^verbatim>\<open>undefined\<close>.
\<close>

fun findRoots :: "(string, scale) js_map \<Rightarrow> string list" where
  "findRoots [] = []"
| "findRoots ((sid, s) # rest) =
     (if is_root s \<or> parent_link s = None then sid # findRoots rest else findRoots rest)"

definition isRoot :: "scale option \<Rightarrow> bool" where
  "isRoot sc = (case sc of None \<Rightarrow> False | Some s \<Rightarrow> is_root s \<or> parent_link s = None)"

section \<open>The scale store (state/scaleStore.js)\<close>

text \<open>
  The canvas state the store points at: the scales map and the active scale id. Before
  \<^verbatim>\<open>init\<close> the store's references are \<^verbatim>\<open>null\<close>: the store is \<open>None\<close>.
  Every operation returns the store after it, next to its result.
\<close>

record ('k, 'v) canvasState =
  scales :: "('k, 'v) js_map"
  activeScaleId :: "'k option"

type_synonym ('k, 'v) store = "('k, 'v) canvasState option"

text \<open>\<^verbatim>\<open>scaleIds instanceof Set ? scaleIds : new Set(scaleIds)\<close>\<close>

datatype id_collection = IdSet "string list" | IdArray "string list"

definition as_set :: "id_collection \<Rightarrow> string list" where
  "as_set c = (case c of IdSet s \<Rightarrow> s | IdArray a \<Rightarrow> foldl set_add [] a)"

text \<open>The body of \<^verbatim>\<open>ids.forEach\<close> in \<^verbatim>\<open>removeScalesCascade\<close>, with the running count.\<close>

fun removeEach :: "(string, 'v) canvasState \<Rightarrow> string list \<Rightarrow> nat \<Rightarrow> (string, 'v) canvasState \<times> nat" where
  "removeEach cs [] count = (cs, count)"
| "removeEach cs (sid # ids) count =
     (if map_has (scales cs) sid
      then removeEach
             (cs\<lparr>scales := map_delete (scales cs) sid,
                 activeScaleId := (if activeScaleId cs = Some sid then None else activeScaleId cs)\<rparr>)
             ids (Suc count)
      else removeEach cs ids count)"

definition removeScalesCascade :: "(string, 'v) store \<Rightarrow> id_collection \<Rightarrow> (string, 'v) store \<times> nat" where
  "removeScalesCascade st scaleIds =
     (case st of
        None \<Rightarrow> (None, 0)
      | Some cs \<Rightarrow> (case removeEach cs (as_set scaleIds) 0 of (cs', count) \<Rightarrow> (Some cs', count)))"

text \<open>
  The structural invariant of the collection: a scale that is not flagged as root has a
  parent id (a truthy one, as every reader of the field requires) and that id is a key of
  the collection.
\<close>

definition parent_closed :: "(string, scale) js_map \<Rightarrow> bool" where
  "parent_closed m =
     list_all (\<lambda>(k, s). is_root s \<or>
                 (case parent_link s of None \<Rightarrow> False | Some p \<Rightarrow> map_has m p)) m"

section \<open>Reachability along parent links\<close>

text \<open>
  The specification side of the cascade set: \<open>(p, c)\<close> is an edge when some entry with
  key \<open>c\<close> names \<open>p\<close> as its parent; the descendants of a node are the nodes reachable
  from it along one or more edges.
\<close>

definition parent_edges :: "(string, scale) js_map \<Rightarrow> (string \<times> string) set" where
  "parent_edges m = {(p, c). \<exists>s. (c, s) \<in> set m \<and> parent_link s = Some p}"

definition descendants :: "(string, scale) js_map \<Rightarrow> string \<Rightarrow> string set" where
  "descendants m t = {c. (t, c) \<in> (parent_edges m)\<^sup>+}"

definition edge_closed :: "(string, scale) js_map \<Rightarrow> string set \<Rightarrow> bool" where
  "edge_closed m R = (\<forall>(c, s) \<in> set m. \<forall>p. parent_link s = Some p \<longrightarrow> p \<in> R \<longrightarrow> c \<in> R)"

text \<open>Concrete collections used to exercise the theorems.\<close>

definition mk_scale :: "string \<Rightarrow> string option \<Rightarrow> bool \<Rightarrow> scale" where
  "mk_scale i p r =
     \<lparr>scale_id = i, scale_name = i, parent_scale_id = p, is_root = r, expanded = False,
      depth = None, branch_index = None, position = None, positionLocked = \<not> r,
      dimensions = []\<rparr>"

definition chain_scales :: "(string, scale) js_map" where
  "chain_scales =
     [(''root'', mk_scale ''root'' None True),
      (''A'', mk_scale ''A'' (Some ''root'') False),
      (''B'', mk_scale ''B'' (Some ''A'') False),
      (''C'', mk_scale ''C'' (Some ''B'') False),
      (''D'', mk_scale ''D'' (Some ''root'') False)]"

definition cyclic_scales :: "(string, scale) js_map" where
  "cyclic_scales =
     [(''p'', mk_scale ''p'' (Some ''q'') False),
      (''q'', mk_scale ''q'' (Some ''p'') False),
      (''r'', mk_scale ''r'' (Some ''gone'') False)]"

section \<open>Delete flows (controllers/flowEditorController.js, controllers/flowController.js)\<close>

text \<open>
  Both controllers read the collection and never write it; the model returns the
  collection after the call next to the result, and the list of calls made into
  \<^verbatim>\<open>ScaleGraph\<close>, so that both effects can be stated. A falsy \<^verbatim>\<open>scaleId\<close>
  (\<^verbatim>\<open>null\<close>, \<^verbatim>\<open>undefined\<close>, the empty string) is the empty string. The flag
  \<open>scaleGraph\<close> says whether \<^verbatim>\<open>window.ScaleGraph\<close> is loaded.
\<close>

datatype js_error = TypeError | Error string

datatype call = BuildCascadeDeleteSet string

record delete_prep =
  canDelete :: bool
  prep_toDelete :: "string list option"
  prep_count :: "nat option"
  prep_error :: "string option"

definition prepareDelete ::
  "bool \<Rightarrow> string \<Rightarrow> (string, scale) js_map \<Rightarrow> delete_prep \<times> (string, scale) js_map \<times> call list" where
  "prepareDelete scaleGraph scaleId m =
     (if scaleId = [] then
        (\<lparr>canDelete = False, prep_toDelete = None, prep_count = None,
          prep_error = Some ''no_scale_id''\<rparr>, m, [])
      else case map_get m scaleId of
        None \<Rightarrow>
          (\<lparr>canDelete = False, prep_toDelete = None, prep_count = None,
            prep_error = Some ''scale_not_found''\<rparr>, m, [])
      | Some s \<Rightarrow>
          if is_root s then
            (\<lparr>canDelete = False, prep_toDelete = None, prep_count = None,
              prep_error = Some ''root_protected''\<rparr>, m, [])
          else if scaleGraph then
            (let toDelete = buildCascadeDeleteSet m scaleId in
             (\<lparr>canDelete = True, prep_toDelete = Some toDelete,
               prep_count = Some (length toDelete), prep_error = None\<rparr>,
              m, [BuildCascadeDeleteSet scaleId]))
          else
            (\<lparr>canDelete = True, prep_toDelete = Some [scaleId],
              prep_count = Some 1, prep_error = None\<rparr>, m, []))"

text \<open>
  The result of \<^verbatim>\<open>handleDeleteScale\<close>. Its \<^verbatim>\<open>execute\<close> closure, the only code
  that deletes, is there exactly when \<^verbatim>\<open>toDelete\<close> is; \<open>execute\<close> below is its
  body, with \<^verbatim>\<open>deleteScaleFn\<close> a function on the collection.
\<close>

record delete_info =
  deleted :: bool
  info_count :: nat
  info_error :: "string option"
  info_toDelete :: "string list option"

definition handleDeleteScale ::
  "bool \<Rightarrow> string \<Rightarrow> (string, scale) js_map \<Rightarrow>
     (js_error + delete_info) \<times> (string, scale) js_map \<times> call list" where
  "handleDeleteScale scaleGraph scaleId m =
     (if scaleId = [] then
        (Inr \<lparr>deleted = False, info_count = 0, info_error = None, info_toDelete = None\<rparr>, m, [])
      else case map_get m scaleId of
        None \<Rightarrow>
          (Inr \<lparr>deleted = False, info_count = 0, info_error = None, info_toDelete = None\<rparr>, m, [])
      | Some s \<Rightarrow>
          if is_root s then
            (Inr \<lparr>deleted = False, info_count = 0, info_error = Some ''root_protected'',
                  info_toDelete = None\<rparr>, m, [])
          else if scaleGraph then
            (let toDelete = buildCascadeDeleteSet m scaleId in
             (Inr \<lparr>deleted = False, info_count = length toDelete, info_error = None,
                   info_toDelete = Some toDelete\<rparr>, m, [BuildCascadeDeleteSet scaleId]))
          else (Inl TypeError, m, []))"

definition execute ::
  "(string \<Rightarrow> (string, scale) js_map \<Rightarrow> (string, scale) js_map) \<Rightarrow> string list \<Rightarrow>
     (string, scale) js_map \<Rightarrow> delete_info \<times> (string, scale) js_map" where
  "execute deleteScaleFn toDelete m =
     (\<lparr>deleted = True, info_count = length toDelete, info_error = None, info_toDelete = None\<rparr>,
      foldl (\<lambda>acc i. deleteScaleFn i acc) m toDelete)"

section \<open>Branch positioning (layout/branchPositioning.js)\<close>

text \<open>
  The constants object. Reading its \<^verbatim>\<open>ROW_HEIGHT\<close> runs a getter in
  \<^verbatim>\<open>LAYOUT_CONSTANTS\<close> and reads a plain property in an object a caller passes in its
  place: \<open>ROW_HEIGHT\<close> is a field, what such a read yields.
\<close>

record layout_constants =
  HORIZONTAL_STEP :: jsnum
  VERTICAL_GAP :: jsnum
  ESTIMATED_HEIGHT :: jsnum
  ROW_HEIGHT :: jsnum

definition LAYOUT_CONSTANTS :: layout_constants where
  "LAYOUT_CONSTANTS =
     \<lparr>HORIZONTAL_STEP = Finite 550, VERTICAL_GAP = Finite 24, ESTIMATED_HEIGHT = Finite 180,
      ROW_HEIGHT = js_add (Finite 180) (Finite 24)\<rparr>"

record branch_position =
  bp_x :: jsnum
  bp_y :: jsnum
  bp_branch_index :: jsnum
  bp_depth :: jsnum

text \<open>\<^verbatim>\<open>d || 0\<close> replaces a missing depth and the falsy numbers (zero, \<^verbatim>\<open>NaN\<close>) by 0.\<close>

definition or_zero :: "jsnum option \<Rightarrow> jsnum" where
  "or_zero v = (case v of None \<Rightarrow> Finite 0 | Some d \<Rightarrow> if js_falsy d then Finite 0 else d)"

definition getNextBranchPosition ::
  "scale option \<Rightarrow> jsnum \<Rightarrow> layout_constants \<Rightarrow> branch_position" where
  "getNextBranchPosition parentScale branch_idx constants =
     (case parentScale of
        None \<Rightarrow> \<lparr>bp_x = Finite 100, bp_y = Finite 100, bp_branch_index = Finite 0,
                 bp_depth = Finite 1\<rparr>
      | Some ps \<Rightarrow>
          (case position ps of
             None \<Rightarrow> \<lparr>bp_x = Finite 100, bp_y = Finite 100, bp_branch_index = Finite 0,
                      bp_depth = Finite 1\<rparr>
           | Some pos \<Rightarrow>
               (let depth' = js_add (or_zero (depth ps)) (Finite 1);
                    baseX = js_add (pos_x pos) (HORIZONTAL_STEP constants);
                    layer = js_add (js_floor (js_half branch_idx)) (Finite 1);
                    direction = js_sub (js_mul (Finite 2) (js_rem2 branch_idx)) (Finite 1);
                    baseY = js_add (pos_y pos)
                              (js_mul (js_mul direction layer) (ROW_HEIGHT constants))
                in \<lparr>bp_x = baseX, bp_y = baseY, bp_branch_index = branch_idx,
                     bp_depth = depth'\<rparr>)))"

definition parent_100_250 :: scale where
  "parent_100_250 =
     \<lparr>scale_id = ''skala-asli'', scale_name = ''Skala Asli'', parent_scale_id = None,
      is_root = True, expanded = False, depth = Some (Finite 0), branch_index = None,
      position = Some \<lparr>pos_x = Finite 100, pos_y = Finite 250\<rparr>, positionLocked = False,
      dimensions = []\<rparr>"

text \<open>A parent on the half-pixel grid, and one so far to the right that the sum with the
  horizontal step is no double.\<close>

definition parent_half_pixel :: scale where
  "parent_half_pixel =
     \<lparr>scale_id = ''skala-asli'', scale_name = ''Skala Asli'', parent_scale_id = None,
      is_root = True, expanded = False, depth = Some (Finite 2), branch_index = None,
      position = Some \<lparr>pos_x = Finite 100, pos_y = Finite (501 / 2)\<rparr>, positionLocked = False,
      dimensions = []\<rparr>"

definition far_parent :: scale where
  "far_parent =
     \<lparr>scale_id = ''skala-asli'', scale_name = ''Skala Asli'', parent_scale_id = None,
      is_root = True, expanded = False, depth = Some (Finite 0), branch_index = None,
      position = Some \<lparr>pos_x = Finite 9007199254740991, pos_y = Finite 250\<rparr>,
      positionLocked = False, dimensions = []\<rparr>"

section \<open>Untyped payloads\<close>

text \<open>
  What the external service returns, and what callers hand to the store, is an arbitrary
  JavaScript value. An object is the list of its own properties, the first
  binding of a name being its value.
\<close>

datatype jsval =
    JUndefined
  | JNull
  | JBool bool
  | JNum jsnum
  | JStr string
  | JArr "jsval list"
  | JObj "(string \<times> jsval) list"

fun truthy :: "jsval \<Rightarrow> bool" where
  "truthy JUndefined = False"
| "truthy JNull = False"
| "truthy (JBool b) = b"
| "truthy (JNum n) = (\<not> js_falsy n)"
| "truthy (JStr s) = (s \<noteq> [])"
| "truthy (JArr xs) = True"
| "truthy (JObj fs) = True"

text \<open>\<^verbatim>\<open>typeof v === 'string'\<close>, \<^verbatim>\<open>typeof v === 'number'\<close>, \<^verbatim>\<open>Array.isArray(v)\<close>
  and \<^verbatim>\<open>v !== null && typeof v === 'object'\<close>.\<close>

fun is_string :: "jsval \<Rightarrow> bool" where
  "is_string (JStr s) = True"
| "is_string v = False"


fun is_array :: "jsval \<Rightarrow> bool" where
  "is_array (JArr xs) = True"
| "is_array v = False"


text \<open>
  Reading a property: a \<^verbatim>\<open>TypeError\<close> on \<^verbatim>\<open>null\<close> and \<^verbatim>\<open>undefined\<close>,
  \<^verbatim>\<open>undefined\<close> for a name the value does not have. The names read by the code below
  (\<^verbatim>\<open>error\<close>, \<^verbatim>\<open>scale_name\<close>, \<^verbatim>\<open>dimensions\<close>, \<^verbatim>\<open>name\<close>, \<^verbatim>\<open>items\<close>,
  \<^verbatim>\<open>text\<close>, \<^verbatim>\<open>scale_id\<close>, \<^verbatim>\<open>position\<close>, \<^verbatim>\<open>x\<close>, \<^verbatim>\<open>y\<close>, ...) are not
  properties of strings, numbers, booleans or arrays.
\<close>

fun get_prop :: "jsval \<Rightarrow> string \<Rightarrow> js_error + jsval" where
  "get_prop JUndefined k = Inl TypeError"
| "get_prop JNull k = Inl TypeError"
| "get_prop (JObj fs) k = Inr (case map_of fs k of None \<Rightarrow> JUndefined | Some v \<Rightarrow> v)"
| "get_prop v k = Inr JUndefined"

text \<open>A string in a template literal, and \<^verbatim>\<open>.length\<close> of a string or an array.\<close>

fun to_text :: "jsval \<Rightarrow> string" where
  "to_text (JStr s) = s"
| "to_text v = []"

fun js_length :: "jsval \<Rightarrow> nat" where
  "js_length (JStr s) = length s"
| "js_length (JArr xs) = length xs"
| "js_length v = 0"

text \<open>A number in a template literal: its decimal digits.\<close>

definition digit_char :: "nat \<Rightarrow> char" where
  "digit_char d = ''0123456789'' ! d"

function string_of_nat :: "nat \<Rightarrow> string" where
  "string_of_nat n =
     (if n < 10 then [digit_char n] else string_of_nat (n div 10) @ [digit_char (n mod 10)])"
  by pat_completeness auto
termination
  by (relation "measure (\<lambda>n. n)") auto

declare string_of_nat.simps [simp del]

section \<open>Adaptation validator (services adapter, validateAdaptScaleResponse)\<close>

record validation =
  valid :: bool
  v_error :: "jsval option"
  warnings :: "string list option"

definition invalid :: "string \<Rightarrow> validation" where
  "invalid msg = \<lparr>valid = False, v_error = Some (JStr msg), warnings = None\<rparr>"

text \<open>The inner loop over \<^verbatim>\<open>dim.items\<close>: \<open>None\<close> when every item passes, else the
  message of the first one that does not.\<close>

fun validateItems :: "string \<Rightarrow> jsval list \<Rightarrow> nat \<Rightarrow> js_error + string option" where
  "validateItems dn [] j = Inr None"
| "validateItems dn (it # rest) j =
     (case get_prop it ''text'' of
        Inl e \<Rightarrow> Inl e
      | Inr t \<Rightarrow>
          if \<not> truthy t \<or> \<not> is_string t
          then Inr (Some (''Item '' @ string_of_nat (j + 1) @ '' in '' @ [CHR 0x22] @ dn
                            @ [CHR 0x22] @ '' missing text''))
          else validateItems dn rest (j + 1))"

text \<open>The outer loop over \<^verbatim>\<open>gptResult.dimensions\<close>.\<close>

fun validateDimensions :: "jsval list \<Rightarrow> nat \<Rightarrow> js_error + string option" where
  "validateDimensions [] i = Inr None"
| "validateDimensions (gdim # rest) i =
     (case get_prop gdim ''name'' of
        Inl e \<Rightarrow> Inl e
      | Inr nm \<Rightarrow>
          if \<not> truthy nm \<or> \<not> is_string nm
          then Inr (Some (''Dimension '' @ string_of_nat (i + 1) @ '' missing name''))
          else
            (case get_prop gdim ''items'' of
               Inl e \<Rightarrow> Inl e
             | Inr its \<Rightarrow>
                 if \<not> is_array its \<or> js_length its = 0
                 then Inr (Some (''Dimension '' @ [CHR 0x22] @ to_text nm @ [CHR 0x22]
                                   @ '' has no items''))
                 else
                   (case validateItems (to_text nm) (case its of JArr xs \<Rightarrow> xs | _ \<Rightarrow> []) 0 of
                      Inl e \<Rightarrow> Inl e
                    | Inr (Some msg) \<Rightarrow> Inr (Some msg)
                    | Inr None \<Rightarrow> validateDimensions rest (i + 1))))"

text \<open>The structure comparison against the source scale, run on dimensions that passed
  the two checks above: \<^verbatim>\<open>gptDim.items\<close> is an array there.\<close>

definition gpt_items_length :: "jsval \<Rightarrow> nat" where
  "gpt_items_length gptDim = (case get_prop gptDim ''items'' of Inr its \<Rightarrow> js_length its | Inl e \<Rightarrow> 0)"

definition gpt_dim_name :: "jsval \<Rightarrow> string" where
  "gpt_dim_name gptDim = (case get_prop gptDim ''name'' of Inr nm \<Rightarrow> to_text nm | Inl e \<Rightarrow> [])"

fun itemCountWarnings :: "jsval list \<Rightarrow> dimension_rec list \<Rightarrow> string list" where
  "itemCountWarnings (gptDim # gs) (sourceDim # ss) =
     (if gpt_items_length gptDim \<noteq> length (dim_items sourceDim)
      then [''Item count mismatch in dimension '' @ [CHR 0x22] @ gpt_dim_name gptDim @ [CHR 0x22]
              @ '': expected='' @ string_of_nat (length (dim_items sourceDim))
              @ '', got='' @ string_of_nat (gpt_items_length gptDim)]
      else []) @ itemCountWarnings gs ss"
| "itemCountWarnings gs ss = []"

definition structureWarnings :: "jsval list \<Rightarrow> scale option \<Rightarrow> string list" where
  "structureWarnings dims sourceScale =
     (case sourceScale of
        None \<Rightarrow> []
      | Some src \<Rightarrow>
          (if length dims \<noteq> length (dimensions src)
           then [''Dimension count mismatch: expected='' @ string_of_nat (length (dimensions src))
                   @ '', got='' @ string_of_nat (length dims)]
           else []) @ itemCountWarnings dims (dimensions src))"

definition validateAdaptScaleResponse :: "jsval \<Rightarrow> scale option \<Rightarrow> js_error + validation" where
  "validateAdaptScaleResponse gptResult sourceScale =
     (if \<not> truthy gptResult then Inr (invalid ''No response'')
      else case get_prop gptResult ''error'' of
        Inl e \<Rightarrow> Inl e
      | Inr er \<Rightarrow>
          if truthy er then Inr \<lparr>valid = False, v_error = Some er, warnings = None\<rparr>
          else case get_prop gptResult ''scale_name'' of
            Inl e \<Rightarrow> Inl e
          | Inr sn \<Rightarrow>
              if \<not> truthy sn \<or> \<not> is_string sn then Inr (invalid ''Missing scale_name'')
              else case get_prop gptResult ''dimensions'' of
                Inl e \<Rightarrow> Inl e
              | Inr ds \<Rightarrow>
                  if \<not> is_array ds \<or> js_length ds = 0
                  then Inr (invalid ''Missing or empty dimensions'')
                  else
                    (let dims = (case ds of JArr xs \<Rightarrow> xs | _ \<Rightarrow> []) in
                     case validateDimensions dims 0 of
                       Inl e \<Rightarrow> Inl e
                     | Inr (Some msg) \<Rightarrow> Inr (invalid msg)
                     | Inr None \<Rightarrow>
                         (let ws = structureWarnings dims sourceScale in
                          Inr \<lparr>valid = True, v_error = None,
                               warnings = (if length ws > 0 then Some ws else None)\<rparr>)))"

text \<open>
  The required shape in the words of the specification: \<open>scale_name\<close> a non-empty string,
  \<open>dimensions\<close> a non-empty list, every dimension with a non-empty string \<open>name\<close> and a
  non-empty list \<open>items\<close>, every item with a non-empty string \<open>text\<close>. \<open>field\<close> reads a
  field that may be absent; \<open>offending_field\<close> is the first required field, in document
  order, that is missing or mistyped.
\<close>

definition field :: "jsval \<Rightarrow> string \<Rightarrow> jsval" where
  "field v k =
     (case v of
        JObj fs \<Rightarrow> (case map_of fs k of None \<Rightarrow> JUndefined | Some x \<Rightarrow> x)
      | _ \<Rightarrow> JUndefined)"

definition nonempty_string :: "jsval \<Rightarrow> bool" where
  "nonempty_string v = (case v of JStr s \<Rightarrow> s \<noteq> [] | _ \<Rightarrow> False)"

definition nonempty_list :: "jsval \<Rightarrow> bool" where
  "nonempty_list v = (case v of JArr xs \<Rightarrow> xs \<noteq> [] | _ \<Rightarrow> False)"

definition elems :: "jsval \<Rightarrow> jsval list" where
  "elems v = (case v of JArr xs \<Rightarrow> xs | _ \<Rightarrow> [])"

definition item_ok :: "jsval \<Rightarrow> bool" where
  "item_ok it = nonempty_string (field it ''text'')"

definition dim_ok :: "jsval \<Rightarrow> bool" where
  "dim_ok d =
     (nonempty_string (field d ''name'') \<and> nonempty_list (field d ''items'') \<and>
      list_all item_ok (elems (field d ''items'')))"

definition required_ok :: "jsval \<Rightarrow> bool" where
  "required_ok g =
     (nonempty_string (field g ''scale_name'') \<and> nonempty_list (field g ''dimensions'') \<and>
      list_all dim_ok (elems (field g ''dimensions'')))"

fun dims_offence :: "jsval list \<Rightarrow> string option" where
  "dims_offence [] = None"
| "dims_offence (d # ds) =
     (if \<not> nonempty_string (field d ''name'') then Some ''name''
      else if \<not> nonempty_list (field d ''items'') then Some ''items''
      else if \<not> list_all item_ok (elems (field d ''items'')) then Some ''text''
      else dims_offence ds)"

definition offending_field :: "jsval \<Rightarrow> string option" where
  "offending_field g =
     (if \<not> nonempty_string (field g ''scale_name'') then Some ''scale_name''
      else if \<not> nonempty_list (field g ''dimensions'') then Some ''dimensions''
      else dims_offence (elems (field g ''dimensions'')))"

text \<open>The source structure differs: another number of dimensions, or another number of
  items in a dimension both have.\<close>

definition structure_differs :: "jsval \<Rightarrow> scale \<Rightarrow> bool" where
  "structure_differs g src =
     (length (elems (field g ''dimensions'')) \<noteq> length (dimensions src) \<or>
      list_ex (\<lambda>(gd, sd). length (elems (field gd ''items'')) \<noteq> length (dim_items sd))
        (zip (elems (field g ''dimensions'')) (dimensions src)))"

text \<open>
  A diagnostic names a field when the field's name is its last word. The required fields
  are the five of the shape above.
\<close>

definition names_field :: "string \<Rightarrow> string \<Rightarrow> bool" where
  "names_field f msg = suffix (CHR '' '' # f) msg"

definition required_fields :: "string list" where
  "required_fields = [''scale_name'', ''dimensions'', ''name'', ''items'', ''text'']"

text \<open>No element of \<open>dimensions\<close> and no element of a dimension's \<open>items\<close> is
  \<^verbatim>\<open>null\<close> or \<^verbatim>\<open>undefined\<close>.\<close>

definition nullish :: "jsval \<Rightarrow> bool" where
  "nullish v = (case v of JUndefined \<Rightarrow> True | JNull \<Rightarrow> True | _ \<Rightarrow> False)"

definition no_nullish_elements :: "jsval \<Rightarrow> bool" where
  "no_nullish_elements g =
     list_all (\<lambda>d. \<not> nullish d \<and> list_all (\<lambda>it. \<not> nullish it) (elems (field d ''items'')))
       (elems (field g ''dimensions''))"

text \<open>Concrete payloads and a source scale used to exercise the validator.\<close>

definition mk_item :: "string \<Rightarrow> string list \<Rightarrow> item" where
  "mk_item i rubric =
     \<lparr>item_id = i, origin_item_id = i, item_text = ''Saya merasa rajin'',
      baseline_rubric = rubric, current_rubric = rubric, dimension = ''Kerajinan'',
      rubric_source = ''parent''\<rparr>"

definition source_scale :: scale where
  "source_scale =
     \<lparr>scale_id = ''skala-asli'', scale_name = ''Skala Asli'', parent_scale_id = None,
      is_root = True, expanded = False, depth = Some (Finite 0), branch_index = None,
      position = Some \<lparr>pos_x = Finite 100, pos_y = Finite 250\<rparr>, positionLocked = False,
      dimensions =
        [\<lparr>dim_name = ''Kerajinan'',
          dim_items = [mk_item ''1'' [''Kerajinan'', ''Merasa''], mk_item ''2'' [''Kemalasan'']]\<rparr>]\<rparr>"

definition good_payload :: jsval where
  "good_payload =
     JObj [(''scale_name'', JStr ''Skala Gen-Z''),
           (''dimensions'',
              JArr [JObj [(''name'', JStr ''Kerajinan''),
                          (''items'', JArr [JObj [(''text'', JStr ''Aku rajin'')]])]])]"

definition textless_payload :: jsval where
  "textless_payload =
     JObj [(''scale_name'', JStr ''Skala Gen-Z''),
           (''dimensions'',
              JArr [JObj [(''name'', JStr ''Kerajinan''),
                          (''items'', JArr [JObj [(''text'', JStr ''Aku rajin'')],
                                            JObj [(''current_rubric'', JArr [])]])]])]"

definition error_payload :: jsval where
  "error_payload =
     JObj [(''error'', JStr ''timeout''),
           (''scale_name'', JStr ''Skala Gen-Z''),
           (''dimensions'',
              JArr [JObj [(''name'', JStr ''Kerajinan''),
                          (''items'', JArr [JObj [(''text'', JStr ''Aku rajin'')]])]])]"

definition null_dimension_payload :: jsval where
  "null_dimension_payload =
     JObj [(''scale_name'', JStr ''Skala Gen-Z''), (''dimensions'', JArr [JNull])]"

section \<open>Invariant checks and insertion (utils/invariants.js, state/scaleStore.js)\<close>













section \<open>Item expansion (expandWithRubrics)\<close>

text \<open>
  The dimensions of a payload that passed the validator: names and texts are strings,
  \<^verbatim>\<open>current_rubric\<close> is optional (\<open>None\<close> when the item omits it) and, when there,
  a list of tags.
\<close>

record gpt_item =
  gpt_text :: string
  gpt_current_rubric :: "string list option"

record gpt_dimension =
  gpt_name :: string
  gpt_items :: "gpt_item list"

text \<open>\<^verbatim>\<open>xs[i]\<close>: \<^verbatim>\<open>undefined\<close> out of range.\<close>

definition nth_opt :: "'a list \<Rightarrow> nat \<Rightarrow> 'a option" where
  "nth_opt xs i = (if i < length xs then Some (xs ! i) else None)"

text \<open>
  The callback of \<^verbatim>\<open>dim.items.map\<close> for one item, at index \<open>itemIndex\<close> and with the
  current value of \<^verbatim>\<open>itemCounter\<close>. \<^verbatim>\<open>sourceItem?.item_id || 'unknown'\<close> falls back
  on a missing source item and on an empty id alike.
\<close>

definition expandItem :: "string \<Rightarrow> string \<Rightarrow> item list \<Rightarrow> gpt_item \<Rightarrow> nat \<Rightarrow> nat \<Rightarrow> item" where
  "expandItem scaleId dimName sourceItems it itemIndex itemCounter =
     (let sourceItem = nth_opt sourceItems itemIndex;
          baseline = (case sourceItem of None \<Rightarrow> [''Mock Rubric''] | Some si \<Rightarrow> baseline_rubric si);
          current = (case gpt_current_rubric it of
                       None \<Rightarrow> baseline
                     | Some tags \<Rightarrow> if length tags > 0 then tags else baseline)
      in \<lparr>item_id = scaleId @ ''-item-'' @ string_of_nat itemCounter,
          origin_item_id = (case sourceItem of
                              None \<Rightarrow> ''unknown''
                            | Some si \<Rightarrow> if item_id si = [] then ''unknown'' else item_id si),
          item_text = gpt_text it,
          baseline_rubric = baseline,
          current_rubric = current,
          dimension = dimName,
          rubric_source = (case gpt_current_rubric it of None \<Rightarrow> ''parent'' | Some tags \<Rightarrow> ''gpt'')\<rparr>)"

text \<open>\<^verbatim>\<open>dim.items.map\<close>: the items from index \<open>itemIndex\<close> on, and the counter after
  them.\<close>

fun expandItems ::
  "string \<Rightarrow> string \<Rightarrow> item list \<Rightarrow> gpt_item list \<Rightarrow> nat \<Rightarrow> nat \<Rightarrow> item list \<times> nat" where
  "expandItems scaleId dimName sourceItems [] itemIndex itemCounter = ([], itemCounter)"
| "expandItems scaleId dimName sourceItems (it # rest) itemIndex itemCounter =
     (case expandItems scaleId dimName sourceItems rest (itemIndex + 1) (itemCounter + 1) of
        (out, itemCounter') \<Rightarrow>
          (expandItem scaleId dimName sourceItems it itemIndex itemCounter # out, itemCounter'))"

text \<open>\<^verbatim>\<open>gptDimensions.map\<close>: the dimensions from index \<open>dimIndex\<close> on;
  \<^verbatim>\<open>sourceDimensions[dimIndex]?.items || []\<close> is empty past the end of the source.\<close>

fun expandDimensions ::
  "string \<Rightarrow> dimension_rec list \<Rightarrow> gpt_dimension list \<Rightarrow> nat \<Rightarrow> nat \<Rightarrow> dimension_rec list" where
  "expandDimensions scaleId sourceDimensions [] dimIndex itemCounter = []"
| "expandDimensions scaleId sourceDimensions (gdim # rest) dimIndex itemCounter =
     (let sourceItems = (case nth_opt sourceDimensions dimIndex of
                           None \<Rightarrow> []
                         | Some sd \<Rightarrow> dim_items sd)
      in case expandItems scaleId (gpt_name gdim) sourceItems (gpt_items gdim) 0 itemCounter of
           (out, itemCounter') \<Rightarrow>
             \<lparr>dim_name = gpt_name gdim, dim_items = out\<rparr>
               # expandDimensions scaleId sourceDimensions rest (dimIndex + 1) itemCounter')"

definition expandWithRubrics :: "gpt_dimension list \<Rightarrow> string \<Rightarrow> dimension_rec list \<Rightarrow> dimension_rec list" where
  "expandWithRubrics gptDimensions scaleId sourceDimensions =
     expandDimensions scaleId sourceDimensions gptDimensions 0 1"

text \<open>The source item, if any, at the position of item \<open>i\<close> of dimension \<open>d\<close>.\<close>

definition source_item_at :: "dimension_rec list \<Rightarrow> nat \<Rightarrow> nat \<Rightarrow> item option" where
  "source_item_at sourceDimensions d i =
     (case nth_opt sourceDimensions d of
        None \<Rightarrow> None
      | Some sd \<Rightarrow> nth_opt (dim_items sd) i)"

text \<open>Inputs for the expansion: a payload of two dimensions over a source of one.\<close>

definition gpt_dims :: "gpt_dimension list" where
  "gpt_dims =
     [\<lparr>gpt_name = ''Kerajinan'',
       gpt_items = [\<lparr>gpt_text = ''Aku rajin'', gpt_current_rubric = Some [''Rajin'']\<rparr>,
                    \<lparr>gpt_text = ''Aku malas'', gpt_current_rubric = None\<rparr>,
                    \<lparr>gpt_text = ''Aku santai'', gpt_current_rubric = Some []\<rparr>]\<rparr>,
      \<lparr>gpt_name = ''Optimisme'',
       gpt_items = [\<lparr>gpt_text = ''Aku optimis'', gpt_current_rubric = None\<rparr>]\<rparr>]"

definition empty_rubric_dims :: "gpt_dimension list" where
  "empty_rubric_dims =
     [\<lparr>gpt_name = ''Kerajinan'',
       gpt_items = [\<lparr>gpt_text = ''Aku rajin'', gpt_current_rubric = Some []\<rparr>]\<rparr>]"

section \<open>Properties of the cascade set\<close>

lemma scanScales_within:
  "scanScales xs td m = (td', m') \<Longrightarrow> set td \<subseteq> R \<Longrightarrow> edge_closed xs R \<Longrightarrow> set td' \<subseteq> R"
proof (induction xs arbitrary: td m)
  case Nil
  then show ?case by simp
next
  case (Cons e xs)
  obtain sId s where e: "e = (sId, s)" by (cases e)
  from Cons.prems(3) have cl: "edge_closed xs R" by (simp add: edge_closed_def)
  show ?case
  proof (cases "sId \<notin> set td \<and>
      (case parent_link s of None \<Rightarrow> False | Some p \<Rightarrow> p \<in> set td)")
    case True
    then obtain p where p: "parent_link s = Some p" "p \<in> set td" by (auto split: option.splits)
    with Cons.prems(2,3) have "sId \<in> R" by (auto simp: e edge_closed_def)
    with Cons.prems(2) have sub: "set (set_add td sId) \<subseteq> R" by (simp add: set_add_def)
    from True Cons.prems(1) e have "scanScales xs (set_add td sId) True = (td', m')" by simp
    from Cons.IH [OF this sub cl] show ?thesis .
  next
    case False
    with Cons.prems(1) e have "scanScales xs td m = (td', m')" by auto
    from Cons.IH [OF this Cons.prems(2) cl] show ?thesis .
  qed
qed

lemma cascadeLoop_fixpoint:
  "set td \<subseteq> set (cascadeLoop m td) \<and>
   edge_closed m (set (cascadeLoop m td)) \<and>
   (\<forall>R. set td \<subseteq> R \<longrightarrow> edge_closed m R \<longrightarrow> set (cascadeLoop m td) \<subseteq> R)"
proof (induction m td rule: cascadeLoop.induct)
  case (1 m td)
  obtain td' b where sc: "scanScales m td False = (td', b)" by force
  show ?case
  proof (cases b)
    case True
    with sc have eq: "cascadeLoop m td = cascadeLoop m td'"
      by (simp add: cascadeLoop.simps [of m td])
    have ih: "set td' \<subseteq> set (cascadeLoop m td') \<and>
       edge_closed m (set (cascadeLoop m td')) \<and>
       (\<forall>R. set td' \<subseteq> R \<longrightarrow> edge_closed m R \<longrightarrow> set (cascadeLoop m td') \<subseteq> R)"
      using "1" [of td' b] sc True by simp
    from scanScales_grows [OF sc] have grow: "set td \<subseteq> set td'" by simp
    have "set td \<subseteq> set (cascadeLoop m td')" using grow ih by blast
    moreover have "edge_closed m (set (cascadeLoop m td'))" using ih by simp
    moreover have "set (cascadeLoop m td') \<subseteq> R" if "set td \<subseteq> R" "edge_closed m R" for R
    proof -
      from scanScales_within [OF sc that] have "set td' \<subseteq> R" .
      with ih that(2) show ?thesis by blast
    qed
    ultimately show ?thesis unfolding eq by blast
  next
    case False
    with sc have eq: "cascadeLoop m td = td'"
      by (simp add: cascadeLoop.simps [of m td])
    from sc False have sc': "scanScales m td False = (td', False)" by simp
    from scanScales_unmodified [OF sc'] have
      "td' = td" "edge_closed m (set td)" by (simp_all add: edge_closed_def)
    then show ?thesis unfolding eq by blast
  qed
qed

lemma edge_closed_reach: "edge_closed m {c. (t, c) \<in> (parent_edges m)\<^sup>*}"
  unfolding edge_closed_def parent_edges_def
  by (auto intro: rtrancl_into_rtrancl)

lemma reach_in_closed:
  assumes "(t, c) \<in> (parent_edges m)\<^sup>*" "t \<in> R" "edge_closed m R"
  shows "c \<in> R"
  using assms
proof (induction rule: rtrancl_induct)
  case base
  then show ?case by simp
next
  case (step y z)
  then show ?case unfolding edge_closed_def parent_edges_def by blast
qed

lemma cascade_set_reach:
  "set (buildCascadeDeleteSet m t) = {c. (t, c) \<in> (parent_edges m)\<^sup>*}"
proof
  show "set (buildCascadeDeleteSet m t) \<subseteq> {c. (t, c) \<in> (parent_edges m)\<^sup>*}"
    using cascadeLoop_fixpoint [of "[t]" m] edge_closed_reach [of m t]
    unfolding buildCascadeDeleteSet_def by auto
next
  have "t \<in> set (cascadeLoop m [t])" "edge_closed m (set (cascadeLoop m [t]))"
    using cascadeLoop_fixpoint [of "[t]" m] by auto
  then show "{c. (t, c) \<in> (parent_edges m)\<^sup>*} \<subseteq> set (buildCascadeDeleteSet m t)"
    unfolding buildCascadeDeleteSet_def using reach_in_closed by blast
qed

lemma reach_descendants: "{c. (t, c) \<in> (parent_edges m)\<^sup>*} = {t} \<union> descendants m t"
  unfolding descendants_def by (auto simp: rtrancl_eq_or_trancl)

lemma parent_edges_rev: "parent_edges (rev m) = parent_edges m"
  by (simp add: parent_edges_def)

text \<open>
  Claim C1. For every collection and every target id, the cascade set holds exactly the
  target and its transitive descendants (the nodes reachable from it along parent
  links), and reversing the iteration order of the collection gives the same set. A
  parent link is a parent id that the loop's test \<^verbatim>\<open>s.parent_scale_id && ...\<close> lets
  through: the empty string is no id there, as for every other reader of the field.
\<close>

theorem cascade_set_exact:
  "set (buildCascadeDeleteSet m t) = {t} \<union> descendants m t \<and>
   set (buildCascadeDeleteSet (rev m) t) = set (buildCascadeDeleteSet m t)"
  unfolding cascade_set_reach parent_edges_rev by (simp add: reach_descendants)


theorem cascade_set_exact_witness:
  "{''A''} \<union> descendants chain_scales ''A'' = {''A'', ''B'', ''C''} \<and>
   set (buildCascadeDeleteSet (rev chain_scales) ''A'') = {''A'', ''B'', ''C''}"
proof -
  have ev: "buildCascadeDeleteSet chain_scales ''A'' = [''A'', ''B'', ''C'']"
    by code_simp
  from cascade_set_exact [of chain_scales "''A''"] show ?thesis
    unfolding ev by auto
qed


text \<open>The list that stands for the \<^verbatim>\<open>Set\<close> has no duplicates, so its length is the
  \<^verbatim>\<open>size\<close> the controllers report.\<close>

lemma scanScales_distinct:
  "scanScales xs td m = (td', m') \<Longrightarrow> distinct td \<Longrightarrow> distinct td'"
proof (induction xs arbitrary: td m)
  case Nil
  then show ?case by simp
next
  case (Cons e xs)
  obtain sId s where e: "e = (sId, s)" by (cases e)
  show ?case
  proof (cases "sId \<notin> set td \<and>
      (case parent_link s of None \<Rightarrow> False | Some p \<Rightarrow> p \<in> set td)")
    case True
    with Cons.prems(1) e have "scanScales xs (set_add td sId) True = (td', m')" by simp
    moreover from True Cons.prems(2) have "distinct (set_add td sId)" by (simp add: set_add_def)
    ultimately show ?thesis by (rule Cons.IH)
  next
    case False
    with Cons.prems(1) e have "scanScales xs td m = (td', m')" by auto
    then show ?thesis using Cons.prems(2) by (rule Cons.IH)
  qed
qed

lemma cascadeLoop_distinct: "distinct td \<Longrightarrow> distinct (cascadeLoop m td)"
proof (induction m td rule: cascadeLoop.induct)
  case (1 m td)
  obtain td' b where sc: "scanScales m td False = (td', b)" by force
  from scanScales_distinct [OF sc "1.prems"] have d: "distinct td'" .
  show ?case
  proof (cases b)
    case True
    with sc have "cascadeLoop m td = cascadeLoop m td'" by (simp add: cascadeLoop.simps [of m td])
    with "1.IH" [OF sc [symmetric] True d] show ?thesis by simp
  next
    case False
    with sc d show ?thesis by (simp add: cascadeLoop.simps [of m td])
  qed
qed

lemma cascade_set_distinct: "distinct (buildCascadeDeleteSet m t)"
  unfolding buildCascadeDeleteSet_def by (rule cascadeLoop_distinct) simp

lemma pending_le_length: "pending m td \<le> length m"
proof -
  have "card (fst ` set m - set td) \<le> card (fst ` set m)"
    by (intro card_mono) auto
  also have "\<dots> \<le> card (set m)" by (rule card_image_le) simp
  also have "\<dots> \<le> length m" by (rule card_length)
  finally show ?thesis by (simp add: pending_def)
qed

lemma cascadePasses_enough:
  "pending m td < n \<Longrightarrow> cascadePasses n m td = Some (cascadeLoop m td)"
proof (induction n arbitrary: td)
  case 0
  then show ?case by simp
next
  case (Suc n)
  obtain td' b where sc: "scanScales m td False = (td', b)" by force
  show ?case
  proof (cases b)
    case True
    with sc have "pending m td' < pending m td" by (simp add: scanScales_pending)
    with Suc.prems have "pending m td' < n" by simp
    from Suc.IH [OF this] sc True show ?thesis
      by (simp add: cascadeLoop.simps [of m td])
  next
    case False
    with sc show ?thesis by (simp add: cascadeLoop.simps [of m td])
  qed
qed

text \<open>
  Claim C9. The loop of \<^verbatim>\<open>buildCascadeDeleteSet\<close> terminates on every collection
  and every target id, cycles and dangling parent ids included: a budget of
  size-of-collection + 1 passes is enough to reach the result, a pass that reports a
  modification has moved a key of the collection into the set, and a pass that reports
  none is the last one.
\<close>

theorem cascade_terminates:
  "cascadePasses (length m + 1) m [t] = Some (buildCascadeDeleteSet m t) \<and>
   (\<forall>td td'. scanScales m td False = (td', True) \<longrightarrow>
      (\<exists>k \<in> fst ` set m. k \<notin> set td \<and> k \<in> set td')) \<and>
   (\<forall>td td' n. scanScales m td False = (td', False) \<longrightarrow>
      cascadePasses (Suc n) m td = Some td')"
proof (intro conjI allI impI)
  have "pending m [t] < length m + 1" using pending_le_length [of m "[t]"] by simp
  then show "cascadePasses (length m + 1) m [t] = Some (buildCascadeDeleteSet m t)"
    unfolding buildCascadeDeleteSet_def by (rule cascadePasses_enough)
next
  fix td td'
  assume sc: "scanScales m td False = (td', True)"
  from scanScales_modified [OF sc] scanScales_grows [OF sc]
  show "\<exists>k \<in> fst ` set m. k \<notin> set td \<and> k \<in> set td'" by blast
next
  fix td td' n
  assume "scanScales m td False = (td', False)"
  then show "cascadePasses (Suc n) m td = Some td'" by simp
qed

theorem cascade_terminates_witness:
  "cascadePasses 4 cyclic_scales [''p''] = Some [''p'', ''q''] \<and>
   scanScales cyclic_scales [''p''] False = ([''p'', ''q''], True) \<and>
   (\<exists>k \<in> fst ` set cyclic_scales. k \<notin> set [''p''] \<and> k \<in> set [''p'', ''q'']) \<and>
   scanScales cyclic_scales [''p'', ''q''] False = ([''p'', ''q''], False) \<and>
   cascadePasses 1 cyclic_scales [''p'', ''q''] = Some [''p'', ''q'']"
proof -
  have ev: "buildCascadeDeleteSet cyclic_scales ''p'' = [''p'', ''q'']" by code_simp
  have len: "length cyclic_scales + 1 = 4" by (simp add: cyclic_scales_def)
  have s1: "scanScales cyclic_scales [''p''] False = ([''p'', ''q''], True)" by code_simp
  have s2: "scanScales cyclic_scales [''p'', ''q''] False = ([''p'', ''q''], False)" by code_simp
  from cascade_terminates [of cyclic_scales "''p''"] have a: "cascadePasses 4 cyclic_scales [''p''] = Some [''p'', ''q'']"
    unfolding ev len by simp
  from cascade_terminates [of cyclic_scales "''p''"] s1 have b: "\<exists>k \<in> fst ` set cyclic_scales. k \<notin> set [''p''] \<and> k \<in> set [''p'', ''q'']"
    by blast
  from cascade_terminates [of cyclic_scales "''p''"] s2 have c: "cascadePasses (Suc 0) cyclic_scales [''p'', ''q''] = Some [''p'', ''q'']"
    by blast
  from a b c s1 s2 show ?thesis by simp
qed

text \<open>
  Claim C10. Root classification is a disjunction: \<^verbatim>\<open>isRoot\<close> and
  \<^verbatim>\<open>findRoots\<close> take a scale for a root when its flag is set or its parent id is
  absent or empty, so a scale with the flag off and no parent id is a root;
  \<^verbatim>\<open>isRoot\<close> of \<^verbatim>\<open>null\<close> is false; and a collection holding a flagged root and
  such a scale reports both.
\<close>

theorem root_classification:
  "(isRoot (Some s) \<longleftrightarrow>
      is_root s \<or> parent_scale_id s = None \<or> parent_scale_id s = Some []) \<and>
   isRoot None = False \<and>
   findRoots m = map fst (filter (\<lambda>(k, s). isRoot (Some s)) m) \<and>
   (\<not> is_root s \<and> parent_scale_id s = None \<longrightarrow> isRoot (Some s)) \<and>
   (is_root s1 \<and> \<not> is_root s2 \<and> parent_link s2 = None \<longrightarrow>
      findRoots [(k1, s1), (k2, s2)] = [k1, k2])"
proof -
  have "findRoots m = map fst (filter (\<lambda>(k, s). isRoot (Some s)) m)"
    by (induction m rule: findRoots.induct) (simp_all add: isRoot_def)
  then show ?thesis
    by (auto simp: isRoot_def parent_link_def split: option.splits)
qed

theorem root_classification_witness:
  "\<not> is_root (mk_scale ''orphan'' None False) \<and>
   parent_scale_id (mk_scale ''orphan'' None False) = None \<and>
   isRoot (Some (mk_scale ''orphan'' None False)) \<and>
   is_root (mk_scale ''root'' None True) \<and>
   findRoots [(''root'', mk_scale ''root'' None True), (''orphan'', mk_scale ''orphan'' None False)]
     = [''root'', ''orphan'']"
proof -
  have a: "\<not> is_root (mk_scale ''orphan'' None False)"
    "parent_scale_id (mk_scale ''orphan'' None False) = None"
    "parent_link (mk_scale ''orphan'' None False) = None"
    "is_root (mk_scale ''root'' None True)"
    by (simp_all add: mk_scale_def parent_link_def)
  from root_classification [of "mk_scale ''orphan'' None False" "[]"
      "mk_scale ''root'' None True" "mk_scale ''orphan'' None False" "''root''" "''orphan''"] a
  show ?thesis by simp
qed

section \<open>Cascade removal in the store\<close>


lemma map_delete_absent: "\<not> map_has m k \<Longrightarrow> filter (\<lambda>e. fst e \<noteq> k) m = m"
  by (induction m) (auto simp: map_has_def)

lemma removeEach_scales:
  "scales (fst (removeEach cs ids n)) = filter (\<lambda>e. fst e \<notin> set ids) (scales cs)"
proof (induction ids arbitrary: cs n)
  case Nil
  then show ?case by simp
next
  case (Cons sid ids)
  show ?case
  proof (cases "map_has (scales cs) sid")
    case True
    then show ?thesis
      by (simp add: Cons.IH map_delete_def conj_commute)
  next
    case False
    have "filter (\<lambda>e. fst e \<notin> set (sid # ids)) (scales cs)
        = filter (\<lambda>e. fst e \<notin> set ids) (filter (\<lambda>e. fst e \<noteq> sid) (scales cs))"
      by (simp add: conj_commute)
    with False show ?thesis by (simp add: Cons.IH map_delete_absent)
  qed
qed

lemma cascade_set_closed:
  "(c, s) \<in> set m \<Longrightarrow> parent_link s = Some p \<Longrightarrow> p \<in> set (buildCascadeDeleteSet m t)
     \<Longrightarrow> c \<in> set (buildCascadeDeleteSet m t)"
  using cascadeLoop_fixpoint [of "[t]" m]
  unfolding buildCascadeDeleteSet_def edge_closed_def by blast

text \<open>
  Claim C2. Cascade removal preserves parent closure: when every scale not flagged as root
  has its parent in the collection, removing the ids of
  \<^verbatim>\<open>buildCascadeDeleteSet\<close> with \<^verbatim>\<open>removeScalesCascade\<close> leaves a collection
  with the same property. It holds for every target id, so in particular for a target
  that is present and not a root; the collection left is the old one without the
  entries of the cascade set.
\<close>

theorem cascade_removal_keeps_parents:
  assumes "parent_closed (scales cs)"
    and "removeScalesCascade (Some cs) (IdSet (buildCascadeDeleteSet (scales cs) t)) = (st', n)"
  shows "\<exists>cs'. st' = Some cs' \<and> parent_closed (scales cs') \<and>
           scales cs' = filter (\<lambda>e. fst e \<notin> set (buildCascadeDeleteSet (scales cs) t)) (scales cs)"
proof -
  let ?D = "buildCascadeDeleteSet (scales cs) t"
  let ?m' = "filter (\<lambda>e. fst e \<notin> set ?D) (scales cs)"
  obtain cs' k where re: "removeEach cs ?D 0 = (cs', k)" by force
  with assms(2) have st: "st' = Some cs'"
    by (simp add: removeScalesCascade_def as_set_def)
  from re removeEach_scales [of cs ?D 0] have sc: "scales cs' = ?m'" by simp
  have "parent_closed ?m'"
    unfolding parent_closed_def list_all_iff
  proof (intro ballI)
    fix e assume e: "e \<in> set ?m'"
    obtain c s where cs: "e = (c, s)" by (cases e)
    from e cs have mem: "(c, s) \<in> set (scales cs)" and out: "c \<notin> set ?D" by auto
    from assms(1) mem have ok: "is_root s \<or>
        (case parent_link s of None \<Rightarrow> False | Some p \<Rightarrow> map_has (scales cs) p)"
      unfolding parent_closed_def list_all_iff by auto
    show "case e of (k, s) \<Rightarrow> is_root s \<or>
        (case parent_link s of None \<Rightarrow> False | Some p \<Rightarrow> map_has ?m' p)"
    proof (cases "is_root s")
      case True
      then show ?thesis by (simp add: cs)
    next
      case False
      with ok obtain p where p: "parent_link s = Some p" "map_has (scales cs) p"
        by (auto split: option.splits)
      from cascade_set_closed [OF mem p(1)] out have "p \<notin> set ?D" by blast
      with p(2) have "map_has ?m' p" by (auto simp: map_has_def)
      with p(1) show ?thesis by (simp add: cs)
    qed
  qed
  with st sc show ?thesis by simp
qed

theorem cascade_removal_keeps_parents_witness:
  "parent_closed chain_scales \<and>
   removeScalesCascade (Some \<lparr>scales = chain_scales, activeScaleId = Some ''B''\<rparr>)
       (IdSet (buildCascadeDeleteSet chain_scales ''A''))
     = (Some \<lparr>scales = [(''root'', mk_scale ''root'' None True),
                          (''D'', mk_scale ''D'' (Some ''root'') False)],
               activeScaleId = None\<rparr>, 3) \<and>
   parent_closed [(''root'', mk_scale ''root'' None True),
                  (''D'', mk_scale ''D'' (Some ''root'') False)]"
proof -
  let ?cs = "\<lparr>scales = chain_scales, activeScaleId = Some ''B''\<rparr>"
  let ?cs' = "\<lparr>scales = [(''root'', mk_scale ''root'' None True),
                          (''D'', mk_scale ''D'' (Some ''root'') False)],
               activeScaleId = (None :: string option)\<rparr>"
  have pc: "parent_closed (scales ?cs)" by code_simp
  have ev: "removeScalesCascade (Some ?cs) (IdSet (buildCascadeDeleteSet (scales ?cs) ''A''))
              = (Some ?cs', 3)" by code_simp
  from cascade_removal_keeps_parents [OF pc ev]
  have "parent_closed (scales ?cs')" by auto
  with pc ev show ?thesis by simp
qed

section \<open>Root protection and branch layout\<close>

subsection \<open>Doubles\<close>

lemma round_even_of_int: "round_even (of_int m) = m"
  by (simp add: round_even_def)

lemma bitlen_le: "x < 2 ^ n \<Longrightarrow> bitlen x \<le> int n"
proof (cases "0 < x")
  case False
  then have "bitlen x = 0" by (simp add: bitlen_eq_zero_iff)
  then show ?thesis by simp
next
  case True
  assume lt: "x < 2 ^ n"
  from bitlen_bounds [OF True] have "(2::int) ^ nat (bitlen x - 1) \<le> x" by (rule conjunct1)
  from this lt have "(2::int) ^ nat (bitlen x - 1) < 2 ^ n" by (rule le_less_trans)
  then have "nat (bitlen x - 1) < n" by simp
  then show ?thesis by simp
qed

lemma floor_log2_small:
  assumes "0 < a" and "a < 2 ^ 52"
  shows "floor_log2 a \<le> 51"
proof (cases "1 \<le> a")
  case True
  from assms(2) have "\<lfloor>a\<rfloor> < 2 ^ 52" by (simp add: floor_less_iff)
  then have "bitlen \<lfloor>a\<rfloor> \<le> 52" using bitlen_le [of "\<lfloor>a\<rfloor>" 52] by simp
  with True show ?thesis by (simp add: floor_log2_def)
next
  case False
  then show ?thesis using bitlen_nonneg [of "\<lceil>1 / a\<rceil> - 1"] by (simp add: floor_log2_def)
qed

text \<open>Integers and half-integers of magnitude below \<open>2 ^ 52\<close> are doubles.\<close>

lemma to_double_half:
  assumes half: "2 * r \<in> \<int>" and small: "\<bar>r\<bar> < 2 ^ 52"
  shows "to_double r = Finite r"
proof (cases "r = 0")
  case True
  then show ?thesis by (simp add: to_double_def)
next
  case False
  define p where "p = max (floor_log2 \<bar>r\<bar> - 52) (- 1074)"
  from False small have "floor_log2 \<bar>r\<bar> \<le> 51" by (intro floor_log2_small) simp_all
  then have p: "p \<le> - 1" "- 1074 \<le> p" by (simp_all add: p_def)
  define n where "n = nat (- p) - 1"
  from p have pn: "p = - int (Suc n)" by (simp add: n_def)
  have pw: "(2::rat) powi p = 1 / 2 ^ Suc n"
    unfolding pn by (simp only: power_int_minus_divide power_int_of_nat)
  from half obtain z where z: "2 * r = of_int z" by (auto elim: Ints_cases)
  have "r / 2 powi p = (2 * r) * 2 ^ n" unfolding pw by simp
  also have "\<dots> = of_int (z * 2 ^ n)" unfolding z by simp
  finally have q: "r / 2 powi p = of_int (z * 2 ^ n)" .
  have v: "of_int (round_even (r / 2 powi p)) * 2 powi p = r"
    unfolding q round_even_of_int using q [symmetric] by (simp add: pw)
  have "\<bar>r\<bar> < 2 ^ 1024"
  proof -
    have "(2::rat) ^ 52 \<le> 2 ^ 1024" by (rule power_increasing) simp_all
    with small show ?thesis by simp
  qed
  with False v show ?thesis
    unfolding to_double_def Let_def p_def [symmetric] by simp
qed

lemma half_integers_are_doubles: "2 * r \<in> \<int> \<Longrightarrow> \<bar>r\<bar> < 2 ^ 52 \<Longrightarrow> is_double r"
  unfolding is_double_def by (rule to_double_half)

lemma to_double_of_int: "\<bar>i\<bar> < 2 ^ 52 \<Longrightarrow> to_double (of_int i) = Finite (of_int i)"
proof (rule to_double_half)
  show "2 * (of_int i :: rat) \<in> \<int>" by (metis Ints_of_int of_int_mult of_int_numeral)
  assume "\<bar>i\<bar> < 2 ^ 52"
  then have "(of_int \<bar>i\<bar> :: rat) < of_int (2 ^ 52)" by (simp only: of_int_less_iff)
  then show "\<bar>of_int i :: rat\<bar> < 2 ^ 52" by simp
qed

lemma floor_half: "\<lfloor>(of_int i :: rat) / 2\<rfloor> = i div 2"
  using floor_divide_of_int_eq [of i 2, where ?'a = rat] by simp

lemma floor_log2_of_int: "1 \<le> k \<Longrightarrow> floor_log2 \<bar>of_int k\<bar> = bitlen k - 1"
  by (simp add: floor_log2_def)

lemma floor_log2_half_of_int:
  assumes "2 \<le> k"
  shows "floor_log2 \<bar>of_int k / 2\<bar> = bitlen k - 2"
proof -
  from assms have "bitlen k = bitlen (k div 2) + 1" using compute_bitlen [of k] by simp
  moreover from assms have "(1::rat) \<le> of_int k / 2" by simp
  ultimately show ?thesis using assms by (simp add: floor_log2_def floor_half)
qed

text \<open>Half of a non-negative integer double is a double, whatever its size.\<close>

lemma to_double_halve:
  assumes dbl: "to_double (of_int k) = Finite (of_int k)" and pos: "0 \<le> k"
  shows "to_double (of_int k / 2) = Finite (of_int k / 2)"
proof (cases "k < 2 ^ 52")
  case True
  show ?thesis
  proof (rule to_double_half)
    show "2 * (of_int k / 2 :: rat) \<in> \<int>" by simp
    from True pos have "\<bar>k\<bar> < 2 ^ 52" by simp
    then have "(of_int \<bar>k\<bar> :: rat) < of_int (2 ^ 52)" by (simp only: of_int_less_iff)
    then show "\<bar>of_int k / 2 :: rat\<bar> < 2 ^ 52" by simp
  qed
next
  case False
  then have big: "2 ^ 52 \<le> k" by simp
  then have k2: "2 \<le> k" and k1: "1 \<le> k" and k0: "0 < k" by simp_all
  from bitlen_bounds [OF k0] have "k < 2 ^ nat (bitlen k)" by (rule conjunct2)
  with big have "(2::int) ^ 52 < 2 ^ nat (bitlen k)" by (rule le_less_trans)
  then have "52 < nat (bitlen k)" by (rule power_less_imp_less_exp [rotated]) simp
  then have bl: "53 \<le> bitlen k" by simp
  define n where "n = nat (bitlen k - 53)"
  from bl have pn: "bitlen k - 53 = int n" by (simp add: n_def)
  have p: "max (floor_log2 \<bar>of_int k\<bar> - 52) (- 1074) = int n"
    unfolding floor_log2_of_int [OF k1] using pn by simp
  have p': "max (floor_log2 \<bar>of_int k / 2\<bar> - 52) (- 1074) = int n - 1"
    unfolding floor_log2_half_of_int [OF k2] using pn by simp
  define m where "m = round_even (of_int k / 2 ^ n)"
  from k0 have nz: "(of_int k :: rat) \<noteq> 0" by simp
  from dbl nz have v: "of_int m * 2 ^ n = (of_int k :: rat)"
    and lt: "\<not> (2::rat) ^ 1024 \<le> \<bar>of_int k\<bar>"
    unfolding to_double_def Let_def p m_def
    by (auto simp: power_int_of_nat split: if_splits)
  have pw: "(2::rat) powi (int n - 1) = 2 ^ n / 2"
    by (simp add: power_int_diff)
  have q: "(of_int k / 2 :: rat) / (2 ^ n / 2) = of_int m"
    using v [symmetric] by simp
  have v': "of_int (round_even ((of_int k / 2 :: rat) / (2 ^ n / 2))) * (2 ^ n / 2) =
              (of_int k / 2 :: rat)"
    unfolding q round_even_of_int using v by simp
  from lt have lt': "\<not> (2::rat) ^ 1024 \<le> \<bar>of_int k / 2\<bar>" using k0 by simp
  from nz have nz': "(of_int k / 2 :: rat) \<noteq> 0" by simp
  show ?thesis
    unfolding to_double_def Let_def p' pw v' using nz' lt' by (simp only: if_False)
qed

subsection \<open>Arithmetic of the branch layout\<close>

lemma js_add_int:
  "\<bar>i + j\<bar> < 2 ^ 52 \<Longrightarrow> js_add (Finite (of_int i)) (Finite (of_int j)) = Finite (of_int (i + j))"
  using to_double_of_int [of "i + j"] by simp

lemma js_sub_int:
  "\<bar>i - j\<bar> < 2 ^ 52 \<Longrightarrow> js_sub (Finite (of_int i)) (Finite (of_int j)) = Finite (of_int (i - j))"
  using to_double_of_int [of "i - j"] by (simp add: js_sub_def js_neg_def)

lemma js_mul_int:
  "\<bar>i * j\<bar> < 2 ^ 52 \<Longrightarrow> js_mul (Finite (of_int i)) (Finite (of_int j)) = Finite (of_int (i * j))"
  using to_double_of_int [of "i * j"] by simp

lemma js_rem2_int:
  assumes "0 \<le> i"
  shows "js_rem2 (Finite (of_int i)) = Finite (of_int (i mod 2))"
proof -
  have "(of_int i :: rat) - 2 * of_int (i div 2) = of_int (i - 2 * (i div 2))" by simp
  also have "i - 2 * (i div 2) = i mod 2" by (simp add: minus_mult_div_eq_mod)
  finally show ?thesis using assms by (simp add: js_rem2_def floor_half)
qed

lemma row_height: "ROW_HEIGHT LAYOUT_CONSTANTS = Finite 204"
proof -
  have "js_add (Finite (of_int 180)) (Finite (of_int 24)) = Finite (of_int (180 + 24))"
    by (rule js_add_int) simp
  then show ?thesis by (simp add: LAYOUT_CONSTANTS_def)
qed

text \<open>\<^verbatim>\<open>Math.floor(k / 2)\<close> is \<open>k div 2\<close> for every non-negative integer double \<open>k\<close>.\<close>

lemma branch_half_floor:
  assumes "0 \<le> k" and "is_double (of_int k)"
  shows "js_floor (js_half (Finite (of_int k))) = Finite (of_int (k div 2))"
proof -
  from assms have "to_double (of_int k / 2) = Finite (of_int k / 2)"
    unfolding is_double_def by (intro to_double_halve)
  then show ?thesis by (simp add: js_half_def js_floor_def floor_half)
qed

text \<open>\<^verbatim>\<open>2 * (k % 2) - 1\<close> is \<open>-1\<close> for an even and \<open>1\<close> for an odd non-negative \<open>k\<close>.\<close>

lemma branch_direction:
  assumes "0 \<le> k"
  shows "js_sub (js_mul (Finite 2) (js_rem2 (Finite (of_int k)))) (Finite 1) =
           Finite (of_int (if even k then - 1 else 1))"
proof -
  have r: "0 \<le> k mod 2" "k mod 2 < 2" by simp_all
  from r have "\<bar>2 * (k mod 2)\<bar> < 2 ^ 52" by simp
  then have m: "js_mul (Finite (of_int 2)) (Finite (of_int (k mod 2))) =
                  Finite (of_int (2 * (k mod 2)))"
    by (rule js_mul_int)
  from r have "\<bar>2 * (k mod 2) - 1\<bar> < 2 ^ 52" by simp
  then have s: "js_sub (Finite (of_int (2 * (k mod 2)))) (Finite (of_int 1)) =
                  Finite (of_int (2 * (k mod 2) - 1))"
    by (rule js_sub_int)
  have "2 * (k mod 2) - 1 = (if even k then - 1 else 1)"
    by (simp add: even_iff_mod_2_eq_zero odd_iff_mod_2_eq_one)
  with m s show ?thesis using assms by (simp add: js_rem2_int)
qed

text \<open>Below \<open>2 ^ 44\<close> siblings the layer and the vertical offset are computed without
  rounding.\<close>

lemma branch_offset:
  assumes "0 \<le> k" and "k < 2 ^ 44"
  shows "js_mul (js_mul (Finite (of_int (if even k then - 1 else 1)))
                   (js_add (Finite (of_int (k div 2))) (Finite 1)))
           (Finite 204) = Finite (of_int ((if even k then - 1 else 1) * (k div 2 + 1) * 204))"
proof -
  let ?dir = "if even k then - 1 else (1::int)"
  from assms have a: "\<bar>k div 2 + 1\<bar> < 2 ^ 52" by simp
  from assms have b: "\<bar>?dir * (k div 2 + 1)\<bar> < 2 ^ 52" by (simp add: abs_mult)
  from assms have c: "\<bar>?dir * (k div 2 + 1) * 204\<bar> < 2 ^ 52" by (simp add: abs_mult)
  have "js_add (Finite (of_int (k div 2))) (Finite (of_int 1)) = Finite (of_int (k div 2 + 1))"
    using a by (rule js_add_int)
  moreover have "js_mul (Finite (of_int ?dir)) (Finite (of_int (k div 2 + 1))) =
          Finite (of_int (?dir * (k div 2 + 1)))"
    using b by (rule js_mul_int)
  moreover have "js_mul (Finite (of_int (?dir * (k div 2 + 1)))) (Finite (of_int 204)) =
          Finite (of_int (?dir * (k div 2 + 1) * 204))"
    using c by (rule js_mul_int)
  ultimately show ?thesis by simp
qed

lemma or_zero_number: "d \<noteq> NaN \<Longrightarrow> or_zero (Some d) = d"
  by (auto simp: or_zero_def js_falsy_def)

text \<open>
  Claim C4. For a parent with a position \<open>(x, y)\<close> and a depth \<open>d\<close> (any number but
  \<^verbatim>\<open>NaN\<close>) and every branch index \<open>k \<ge> 0\<close> (an integer that is a JavaScript number),
  \<^verbatim>\<open>getNextBranchPosition\<close> returns depth \<open>d + 1\<close>, abscissa \<open>x + 550\<close> and ordinate
  \<open>y + direction * layer * 204\<close>, where \<open>layer = k div 2 + 1\<close> and \<open>direction\<close> is \<open>-1\<close> for
  even \<open>k\<close> and \<open>+1\<close> for odd \<open>k\<close>. The sums and products are those of JavaScript
  numbers, \<open>js_add\<close> and \<open>js_mul\<close>: the double nearest to the exact result. They are the
  exact results whenever these are doubles and \<open>k < 2 ^ 44\<close>; integers and half-integers
  below \<open>2 ^ 52\<close> in magnitude are doubles (\<open>half_integers_are_doubles\<close>).
\<close>

theorem next_branch_position:
  assumes "position ps = Some \<lparr>pos_x = x, pos_y = y\<rparr>"
    and "depth ps = Some d" and "d \<noteq> NaN"
    and "0 \<le> k" and "is_double (of_int k)"
  shows "getNextBranchPosition (Some ps) (Finite (of_int k)) LAYOUT_CONSTANTS =
           \<lparr>bp_x = js_add x (Finite 550),
            bp_y = js_add y
                     (js_mul (js_mul (Finite (if even k then - 1 else 1))
                                (js_add (Finite (of_int (k div 2))) (Finite 1)))
                        (Finite 204)),
            bp_branch_index = Finite (of_int k),
            bp_depth = js_add d (Finite 1)\<rparr> \<and>
         (\<forall>a b c. x = Finite a \<and> y = Finite b \<and> d = Finite c \<and> k < 2 ^ 44 \<and>
              is_double (a + 550) \<and>
              is_double (b + of_int ((if even k then - 1 else 1) * (k div 2 + 1) * 204)) \<and>
              is_double (c + 1) \<longrightarrow>
            getNextBranchPosition (Some ps) (Finite (of_int k)) LAYOUT_CONSTANTS =
              \<lparr>bp_x = Finite (a + 550),
               bp_y = Finite (b + of_int ((if even k then - 1 else 1) * (k div 2 + 1) * 204)),
               bp_branch_index = Finite (of_int k),
               bp_depth = Finite (c + 1)\<rparr>)"
proof -
  let ?off = "(if even k then - 1 else 1) * (k div 2 + 1) * 204 :: int"
  have hs: "HORIZONTAL_STEP LAYOUT_CONSTANTS = Finite 550" by (simp add: LAYOUT_CONSTANTS_def)
  have dir: "Finite (of_int (if even k then - 1 else 1)) = Finite (if even k then - 1 else 1)"
    by simp
  have g: "getNextBranchPosition (Some ps) (Finite (of_int k)) LAYOUT_CONSTANTS =
           \<lparr>bp_x = js_add x (Finite 550),
            bp_y = js_add y
                     (js_mul (js_mul (Finite (of_int (if even k then - 1 else 1)))
                                (js_add (Finite (of_int (k div 2))) (Finite 1)))
                        (Finite 204)),
            bp_branch_index = Finite (of_int k),
            bp_depth = js_add d (Finite 1)\<rparr>"
    unfolding getNextBranchPosition_def Let_def
    by (simp only: option.case assms(1) assms(2) or_zero_number [OF assms(3)] hs row_height
        branch_half_floor [OF assms(4,5)] branch_direction [OF assms(4)] point.simps)
  have e: "getNextBranchPosition (Some ps) (Finite (of_int k)) LAYOUT_CONSTANTS =
              \<lparr>bp_x = Finite (a + 550), bp_y = Finite (b + of_int ?off),
               bp_branch_index = Finite (of_int k), bp_depth = Finite (c + 1)\<rparr>"
    if "x = Finite a \<and> y = Finite b \<and> d = Finite c \<and> k < 2 ^ 44 \<and> is_double (a + 550) \<and>
        is_double (b + of_int ?off) \<and> is_double (c + 1)" for a b c
  proof -
    from that have x: "x = Finite a" and y: "y = Finite b" and d: "d = Finite c"
      and k: "k < 2 ^ 44" and ia: "to_double (a + 550) = Finite (a + 550)"
      and ib: "to_double (b + of_int ?off) = Finite (b + of_int ?off)"
      and ic: "to_double (c + 1) = Finite (c + 1)"
      by (simp_all add: is_double_def)
    show ?thesis
      by (simp only: g x y d branch_offset [OF assms(4) k]) (simp only: js_add.simps ia ib ic)
  qed
  from g e show ?thesis unfolding dir by blast
qed

theorem next_branch_position_witness:
  "getNextBranchPosition (Some parent_100_250) (Finite 0) LAYOUT_CONSTANTS =
     \<lparr>bp_x = Finite 650, bp_y = Finite 46, bp_branch_index = Finite 0, bp_depth = Finite 1\<rparr> \<and>
   getNextBranchPosition (Some parent_100_250) (Finite 1) LAYOUT_CONSTANTS =
     \<lparr>bp_x = Finite 650, bp_y = Finite 454, bp_branch_index = Finite 1, bp_depth = Finite 1\<rparr> \<and>
   getNextBranchPosition (Some parent_100_250) (Finite 2) LAYOUT_CONSTANTS =
     \<lparr>bp_x = Finite 650, bp_y = Finite (- 158), bp_branch_index = Finite 2,
      bp_depth = Finite 1\<rparr>"
proof -
  have p: "position parent_100_250 = Some \<lparr>pos_x = Finite 100, pos_y = Finite 250\<rparr>"
    and d: "depth parent_100_250 = Some (Finite 0)"
    by (simp_all add: parent_100_250_def)
  have n: "Finite 0 \<noteq> NaN" by simp
  have i: "is_double r" if "2 * r \<in> \<int>" and "\<bar>r\<bar> < 2 ^ 52" for r
    using that by (rule half_integers_are_doubles)
  have i0: "is_double (of_int 0)" and i1: "is_double (of_int 1)" and i2: "is_double (of_int 2)"
    by (rule i; simp)+
  have j: "is_double 650" "is_double 46" "is_double 454" "is_double (- 158)" "is_double 1"
    by (rule i; simp)+
  from next_branch_position [OF p d n _ i0, THEN conjunct2, rule_format, of 100 250 0] j
  have b0: "getNextBranchPosition (Some parent_100_250) (Finite 0) LAYOUT_CONSTANTS =
     \<lparr>bp_x = Finite 650, bp_y = Finite 46, bp_branch_index = Finite 0, bp_depth = Finite 1\<rparr>"
    by simp
  from next_branch_position [OF p d n _ i1, THEN conjunct2, rule_format, of 100 250 0] j
  have b1: "getNextBranchPosition (Some parent_100_250) (Finite 1) LAYOUT_CONSTANTS =
     \<lparr>bp_x = Finite 650, bp_y = Finite 454, bp_branch_index = Finite 1, bp_depth = Finite 1\<rparr>"
    by simp
  from next_branch_position [OF p d n _ i2, THEN conjunct2, rule_format, of 100 250 0] j
  have b2: "getNextBranchPosition (Some parent_100_250) (Finite 2) LAYOUT_CONSTANTS =
     \<lparr>bp_x = Finite 650, bp_y = Finite (- 158), bp_branch_index = Finite 2,
      bp_depth = Finite 1\<rparr>"
    by simp
  from b0 b1 b2 show ?thesis by (intro conjI)
qed

text \<open>
  The same on the half-pixel grid, where the ordinate is no integer, and for a parent
  whose abscissa is \<open>2 ^ 53 - 1\<close>: there the exact sum \<open>9007199254741541\<close> is no double and
  the branch gets the nearest one.
\<close>

lemma branch_on_half_pixel_grid:
  "getNextBranchPosition (Some parent_half_pixel) (Finite 3) LAYOUT_CONSTANTS =
     \<lparr>bp_x = Finite 650, bp_y = Finite (1317 / 2), bp_branch_index = Finite 3,
      bp_depth = Finite 3\<rparr>"
  by code_simp

lemma branch_of_far_parent:
  "is_double 9007199254740991 \<and> \<not> is_double (9007199254740991 + 550) \<and>
   bp_x (getNextBranchPosition (Some far_parent) (Finite 0) LAYOUT_CONSTANTS) =
     Finite 9007199254741540"
  by code_simp

text \<open>
  Claim C3. For every collection and every id whose scale is flagged as root,
  \<^verbatim>\<open>prepareDelete\<close> and \<^verbatim>\<open>handleDeleteScale\<close> both answer with a refusal that
  carries \<open>root_protected\<close> and no delete set, leave the collection as it was and make
  no call to \<^verbatim>\<open>buildCascadeDeleteSet\<close>: the root check returns before the cascade
  set is built. An id is a non-empty string: the store accepts no scale under an empty
  \<open>scale_id\<close> (\<^verbatim>\<open>validateScale\<close>, \<^verbatim>\<open>CanvasStateOps.addScale\<close>).
\<close>

theorem root_delete_refused:
  assumes "scaleId \<noteq> []" and "map_get m scaleId = Some s" and "is_root s"
  shows "prepareDelete g scaleId m =
           (\<lparr>canDelete = False, prep_toDelete = None, prep_count = None,
             prep_error = Some ''root_protected''\<rparr>, m, []) \<and>
         handleDeleteScale g scaleId m =
           (Inr \<lparr>deleted = False, info_count = 0, info_error = Some ''root_protected'',
                 info_toDelete = None\<rparr>, m, [])"
  using assms by (simp add: prepareDelete_def handleDeleteScale_def)

theorem root_delete_refused_witness:
  "''root'' \<noteq> [] \<and>
   map_get chain_scales ''root'' = Some (mk_scale ''root'' None True) \<and>
   is_root (mk_scale ''root'' None True) \<and>
   prepareDelete True ''root'' chain_scales =
     (\<lparr>canDelete = False, prep_toDelete = None, prep_count = None,
       prep_error = Some ''root_protected''\<rparr>, chain_scales, []) \<and>
   handleDeleteScale True ''root'' chain_scales =
     (Inr \<lparr>deleted = False, info_count = 0, info_error = Some ''root_protected'',
           info_toDelete = None\<rparr>, chain_scales, [])"
proof -
  have n: "''root'' \<noteq> []" by simp
  have a: "map_get chain_scales ''root'' = Some (mk_scale ''root'' None True)"
    by (simp add: map_get_def chain_scales_def)
  have b: "is_root (mk_scale ''root'' None True)" by (simp add: mk_scale_def)
  from root_delete_refused [OF n a b, of True] a b show ?thesis by simp
qed

section \<open>The adaptation validator\<close>

lemma get_prop_field: "\<not> nullish v \<Longrightarrow> get_prop v k = Inr (field v k)"
  by (cases v) (simp_all add: nullish_def field_def)

lemma nonempty_string_iff: "nonempty_string t \<longleftrightarrow> truthy t \<and> is_string t"
  by (cases t) (simp_all add: nonempty_string_def)

lemma nonempty_list_iff: "nonempty_list v \<longleftrightarrow> is_array v \<and> js_length v \<noteq> 0"
  by (cases v) (simp_all add: nonempty_list_def)

lemma elems_case: "(case v of JArr xs \<Rightarrow> xs | _ \<Rightarrow> []) = elems v"
  by (simp add: elems_def)

lemma get_prop_nullish: "nullish v \<Longrightarrow> get_prop v k = Inl TypeError"
  by (cases v) (simp_all add: nullish_def)

lemma names_fieldI: "msg = a @ CHR '' '' # f \<Longrightarrow> names_field f msg"
  unfolding names_field_def suffix_def by blast

lemma names_text: "names_field ''text'' (a @ '' missing text'')"
  by (rule names_fieldI [of _ "a @ '' missing''"]) simp

lemma names_name: "names_field ''name'' (a @ '' missing name'')"
  by (rule names_fieldI [of _ "a @ '' missing''"]) simp

lemma names_items: "names_field ''items'' (a @ '' has no items'')"
  by (rule names_fieldI [of _ "a @ '' has no''"]) simp

lemma names_scale_name: "names_field ''scale_name'' ''Missing scale_name''"
  by (rule names_fieldI [of _ "''Missing''"]) simp

lemma names_dimensions: "names_field ''dimensions'' ''Missing or empty dimensions''"
  by (rule names_fieldI [of _ "''Missing or empty''"]) simp

lemma names_field_unique:
  assumes "names_field f msg" and "names_field f' msg"
    and "CHR '' '' \<notin> set f" and "CHR '' '' \<notin> set f'"
  shows "f = f'"
proof -
  from assms(1,2) have "suffix (CHR '' '' # f) (CHR '' '' # f') \<or> suffix (CHR '' '' # f') (CHR '' '' # f)"
    unfolding names_field_def by (rule suffix_same_cases)
  then show ?thesis
  proof
    assume "suffix (CHR '' '' # f) (CHR '' '' # f')"
    then obtain zs where zs: "CHR '' '' # f' = zs @ CHR '' '' # f" unfolding suffix_def by blast
    show ?thesis
    proof (cases zs)
      case Nil
      with zs show ?thesis by simp
    next
      case (Cons z zs')
      with zs have "f' = zs' @ CHR '' '' # f" by simp
      with assms(4) show ?thesis by simp
    qed
  next
    assume "suffix (CHR '' '' # f') (CHR '' '' # f)"
    then obtain zs where zs: "CHR '' '' # f = zs @ CHR '' '' # f'" unfolding suffix_def by blast
    show ?thesis
    proof (cases zs)
      case Nil
      with zs show ?thesis by simp
    next
      case (Cons z zs')
      with zs have "f = zs' @ CHR '' '' # f'" by simp
      with assms(3) show ?thesis by simp
    qed
  qed
qed

lemma required_fields_words: "f \<in> set required_fields \<Longrightarrow> CHR '' '' \<notin> set f"
  by (auto simp: required_fields_def)

lemma dims_offence_required: "dims_offence ds = Some f \<Longrightarrow> f \<in> set required_fields"
  by (induction ds) (auto simp: required_fields_def split: if_splits)

lemma offending_field_required: "offending_field g = Some f \<Longrightarrow> f \<in> set required_fields"
  by (auto simp: offending_field_def required_fields_def split: if_splits
      dest: dims_offence_required)

lemma names_only:
  assumes "offending_field g = Some f" and "names_field f msg"
  shows "\<forall>f' \<in> set required_fields. names_field f' msg \<longrightarrow> f' = f"
proof (intro ballI impI)
  fix f' assume "f' \<in> set required_fields" "names_field f' msg"
  with assms show "f' = f"
    using names_field_unique [of f' msg f] required_fields_words offending_field_required
    by blast
qed

text \<open>The two loops, when they return rather than throw.\<close>

lemma validateItems_returns:
  "validateItems dn its j = Inr r \<Longrightarrow>
     (r = None \<longleftrightarrow> list_all item_ok its) \<and> (\<forall>msg. r = Some msg \<longrightarrow> names_field ''text'' msg)"
proof (induction its arbitrary: j)
  case Nil
  then show ?case by simp
next
  case (Cons it its)
  have nn: "\<not> nullish it"
  proof
    assume "nullish it"
    then have "get_prop it ''text'' = Inl TypeError" by (rule get_prop_nullish)
    with Cons.prems show False by simp
  qed
  have gp: "get_prop it ''text'' = Inr (field it ''text'')" by (rule get_prop_field [OF nn])
  show ?case
  proof (cases "item_ok it")
    case True
    then have "truthy (field it ''text'') \<and> is_string (field it ''text'')"
      by (simp add: item_ok_def nonempty_string_iff)
    with gp Cons.prems have "validateItems dn its (j + 1) = Inr r" by simp
    from Cons.IH [OF this] True show ?thesis by simp
  next
    case False
    then have "\<not> truthy (field it ''text'') \<or> \<not> is_string (field it ''text'')"
      by (simp add: item_ok_def nonempty_string_iff)
    with gp have "validateItems dn (it # its) j =
        Inr (Some ((''Item '' @ string_of_nat (j + 1) @ '' in '' @ [CHR 0x22] @ dn @ [CHR 0x22])
               @ '' missing text''))" by auto
    with Cons.prems have r: "r = Some ((''Item '' @ string_of_nat (j + 1) @ '' in '' @ [CHR 0x22]
               @ dn @ [CHR 0x22]) @ '' missing text'')" by simp
    show ?thesis unfolding r
      using False
        names_text [of "''Item '' @ string_of_nat (j + 1) @ '' in '' @ [CHR 0x22] @ dn @ [CHR 0x22]"]
      by simp
  qed
qed

lemma validateItems_total:
  "list_all (\<lambda>it. \<not> nullish it) its \<Longrightarrow> \<exists>r. validateItems dn its j = Inr r"
  by (induction its arbitrary: j) (simp_all add: get_prop_field)

lemma validateDimensions_returns:
  "validateDimensions dims i = Inr r \<Longrightarrow>
     (r = None \<longleftrightarrow> list_all dim_ok dims) \<and>
     (r = None \<longleftrightarrow> dims_offence dims = None) \<and>
     (\<forall>msg. r = Some msg \<longrightarrow> (\<exists>f. dims_offence dims = Some f \<and> names_field f msg))"
proof (induction dims arbitrary: i)
  case Nil
  then show ?case by simp
next
  case (Cons d dims)
  have nn: "\<not> nullish d"
  proof
    assume "nullish d"
    then have "get_prop d ''name'' = Inl TypeError" by (rule get_prop_nullish)
    with Cons.prems show False by simp
  qed
  have gn: "get_prop d ''name'' = Inr (field d ''name'')"
    and gi: "get_prop d ''items'' = Inr (field d ''items'')"
    by (rule get_prop_field [OF nn])+
  show ?case
  proof (cases "nonempty_string (field d ''name'')")
    case False
    then have "\<not> truthy (field d ''name'') \<or> \<not> is_string (field d ''name'')"
      by (simp add: nonempty_string_iff)
    with gn have "validateDimensions (d # dims) i =
        Inr (Some ((''Dimension '' @ string_of_nat (i + 1)) @ '' missing name''))" by auto
    with Cons.prems have r: "r = Some ((''Dimension '' @ string_of_nat (i + 1)) @ '' missing name'')"
      by simp
    show ?thesis unfolding r
      using False names_name [of "''Dimension '' @ string_of_nat (i + 1)"]
      by (simp add: dim_ok_def)
  next
    case nm: True
    then have t1: "\<not> (\<not> truthy (field d ''name'') \<or> \<not> is_string (field d ''name''))"
      by (simp add: nonempty_string_iff)
    show ?thesis
    proof (cases "nonempty_list (field d ''items'')")
      case False
      then have "\<not> is_array (field d ''items'') \<or> js_length (field d ''items'') = 0"
        by (simp add: nonempty_list_iff)
      with gn gi t1 have "validateDimensions (d # dims) i =
          Inr (Some ((''Dimension '' @ [CHR 0x22] @ to_text (field d ''name'') @ [CHR 0x22])
                 @ '' has no items''))" by auto
      with Cons.prems have r: "r = Some ((''Dimension '' @ [CHR 0x22] @ to_text (field d ''name'')
                 @ [CHR 0x22]) @ '' has no items'')" by simp
      show ?thesis unfolding r
        using nm False
          names_items [of "''Dimension '' @ [CHR 0x22] @ to_text (field d ''name'') @ [CHR 0x22]"]
        by (simp add: dim_ok_def)
    next
      case il: True
      then have t2: "\<not> (\<not> is_array (field d ''items'') \<or> js_length (field d ''items'') = 0)"
        by (simp add: nonempty_list_iff)
      obtain vi where vi: "validateItems (to_text (field d ''name'')) (elems (field d ''items'')) 0 = vi"
        by simp
      show ?thesis
      proof (cases vi)
        case (Inl e)
        with vi gn gi t1 t2 have "validateDimensions (d # dims) i = Inl e"
          by (simp add: elems_case)
        with Cons.prems show ?thesis by simp
      next
        case (Inr ri)
        from validateItems_returns [OF vi [unfolded Inr]]
        have ri: "ri = None \<longleftrightarrow> list_all item_ok (elems (field d ''items''))"
          "\<forall>msg. ri = Some msg \<longrightarrow> names_field ''text'' msg" by simp_all
        show ?thesis
        proof (cases ri)
          case None
          with vi Inr gn gi t1 t2
          have "validateDimensions (d # dims) i = validateDimensions dims (i + 1)"
            by (simp add: elems_case)
          with Cons.prems have "validateDimensions dims (i + 1) = Inr r" by simp
          moreover have iok: "list_all item_ok (elems (field d ''items''))"
            using ri(1) None by simp
          moreover have "dim_ok d" using nm il iok by (simp add: dim_ok_def)
          ultimately show ?thesis using Cons.IH [of "i + 1"] nm il by auto
        next
          case (Some msg)
          with vi Inr gn gi t1 t2 have "validateDimensions (d # dims) i = Inr (Some msg)"
            by (simp add: elems_case)
          with Cons.prems have r: "r = Some msg" by simp
          have niok: "\<not> list_all item_ok (elems (field d ''items''))"
            using ri(1) Some by simp
          then have "\<not> dim_ok d" by (simp add: dim_ok_def)
          with niok show ?thesis unfolding r using nm il ri(2) Some by simp
        qed
      qed
    qed
  qed
qed

lemma validateDimensions_total:
  "list_all (\<lambda>d. \<not> nullish d \<and> list_all (\<lambda>it. \<not> nullish it) (elems (field d ''items''))) dims
     \<Longrightarrow> \<exists>r. validateDimensions dims i = Inr r"
proof (induction dims arbitrary: i)
  case Nil
  then show ?case by simp
next
  case (Cons d dims)
  from Cons.prems have nn: "\<not> nullish d"
    and nni: "list_all (\<lambda>it. \<not> nullish it) (elems (field d ''items''))"
    and rest: "list_all (\<lambda>d. \<not> nullish d \<and> list_all (\<lambda>it. \<not> nullish it) (elems (field d ''items''))) dims"
    by simp_all
  from validateItems_total [OF nni] obtain ri where
    ri: "validateItems (to_text (field d ''name'')) (elems (field d ''items'')) 0 = Inr ri"
    by blast
  from Cons.IH [OF rest] obtain r' where r': "validateDimensions dims (i + 1) = Inr r'"
    by blast
  show ?case
    using ri r' by (cases ri) (simp_all add: get_prop_field [OF nn] elems_case)
qed

lemma js_length_elems: "nonempty_list v \<Longrightarrow> js_length v = length (elems v)"
  by (cases v) (simp_all add: nonempty_list_def elems_def)

lemma gpt_items_length_ok: "dim_ok d \<Longrightarrow> gpt_items_length d = length (elems (field d ''items''))"
proof -
  assume ok: "dim_ok d"
  then have "nonempty_string (field d ''name'')" by (simp add: dim_ok_def)
  then have "\<not> nullish d" by (cases d) (simp_all add: field_def nonempty_string_def nullish_def)
  then have "get_prop d ''items'' = Inr (field d ''items'')" by (rule get_prop_field)
  with ok show ?thesis by (simp add: gpt_items_length_def dim_ok_def js_length_elems)
qed

lemma itemCountWarnings_iff:
  "list_all dim_ok dims \<Longrightarrow>
     (itemCountWarnings dims sds \<noteq> []) =
       list_ex (\<lambda>(gd, sd). length (elems (field gd ''items'')) \<noteq> length (dim_items sd)) (zip dims sds)"
  by (induction dims sds rule: itemCountWarnings.induct) (simp_all add: gpt_items_length_ok)

lemma structureWarnings_iff:
  assumes "list_all dim_ok dims"
  shows "(structureWarnings dims src \<noteq> []) =
     (case src of None \<Rightarrow> False
      | Some s \<Rightarrow> length dims \<noteq> length (dimensions s) \<or>
          list_ex (\<lambda>(gd, sd). length (elems (field gd ''items'')) \<noteq> length (dim_items sd))
            (zip dims (dimensions s)))"
  using itemCountWarnings_iff [OF assms]
  by (cases src) (simp_all add: structureWarnings_def)

lemma truthy_not_nullish: "truthy g \<Longrightarrow> \<not> nullish g"
  by (cases g) (simp_all add: nullish_def)

lemma adapt_validation_returned:
  assumes t: "truthy g" and ne: "\<not> truthy (field g ''error'')"
    and ret: "validateAdaptScaleResponse g src = Inr r"
  shows "(valid r \<longleftrightarrow> required_ok g) \<and>
         (\<not> required_ok g \<longrightarrow>
            (\<exists>f msg. offending_field g = Some f \<and> v_error r = Some (JStr msg) \<and>
               names_field f msg \<and>
               (\<forall>f' \<in> set required_fields. names_field f' msg \<longrightarrow> f' = f))) \<and>
         (required_ok g \<longrightarrow>
            v_error r = None \<and>
            (warnings r \<noteq> None \<longleftrightarrow>
               (case src of None \<Rightarrow> False | Some s \<Rightarrow> structure_differs g s)))"
proof -
  from t have nn: "\<not> nullish g" by (rule truthy_not_nullish)
  have ge: "get_prop g ''error'' = Inr (field g ''error'')"
    and gs: "get_prop g ''scale_name'' = Inr (field g ''scale_name'')"
    and gd: "get_prop g ''dimensions'' = Inr (field g ''dimensions'')"
    by (rule get_prop_field [OF nn])+
  show ?thesis
  proof (cases "nonempty_string (field g ''scale_name'')")
    case False
    then have "\<not> truthy (field g ''scale_name'') \<or> \<not> is_string (field g ''scale_name'')"
      by (simp add: nonempty_string_iff)
    with t ne ge gs have "validateAdaptScaleResponse g src = Inr (invalid ''Missing scale_name'')"
      by (auto simp: validateAdaptScaleResponse_def)
    with ret have r: "r = invalid ''Missing scale_name''" by simp
    from False have off: "offending_field g = Some ''scale_name''"
      by (simp add: offending_field_def)
    from False off names_scale_name names_only [OF off names_scale_name]
    show ?thesis unfolding r by (simp add: invalid_def required_ok_def)
  next
    case sn: True
    then have t1: "\<not> (\<not> truthy (field g ''scale_name'') \<or> \<not> is_string (field g ''scale_name''))"
      by (simp add: nonempty_string_iff)
    show ?thesis
    proof (cases "nonempty_list (field g ''dimensions'')")
      case False
      then have "\<not> is_array (field g ''dimensions'') \<or> js_length (field g ''dimensions'') = 0"
        by (simp add: nonempty_list_iff)
      with t ne ge gs gd t1
      have "validateAdaptScaleResponse g src = Inr (invalid ''Missing or empty dimensions'')"
        by (auto simp: validateAdaptScaleResponse_def)
      with ret have r: "r = invalid ''Missing or empty dimensions''" by simp
      from sn False have off: "offending_field g = Some ''dimensions''"
        by (simp add: offending_field_def)
      from sn False off names_dimensions names_only [OF off names_dimensions]
      show ?thesis unfolding r by (simp add: invalid_def required_ok_def)
    next
      case dl: True
      then have t2: "\<not> (\<not> is_array (field g ''dimensions'') \<or> js_length (field g ''dimensions'') = 0)"
        by (simp add: nonempty_list_iff)
      let ?dims = "elems (field g ''dimensions'')"
      have ro: "required_ok g \<longleftrightarrow> list_all dim_ok ?dims"
        using sn dl by (simp add: required_ok_def)
      have off: "offending_field g = dims_offence ?dims"
        using sn dl by (simp add: offending_field_def)
      obtain vd where vd: "validateDimensions ?dims 0 = vd" by simp
      show ?thesis
      proof (cases vd)
        case (Inl e)
        with vd t ne ge gs gd t1 t2 have "validateAdaptScaleResponse g src = Inl e"
          by (simp add: validateAdaptScaleResponse_def elems_case Let_def)
        with ret show ?thesis by simp
      next
        case (Inr rd)
        from validateDimensions_returns [OF vd [unfolded Inr]]
        have rd: "rd = None \<longleftrightarrow> list_all dim_ok ?dims"
          "\<forall>msg. rd = Some msg \<longrightarrow> (\<exists>f. dims_offence ?dims = Some f \<and> names_field f msg)"
          by (rule conjunct1, rule conjunct2 [THEN conjunct2])
        show ?thesis
        proof (cases rd)
          case None
          with rd(1) have ok: "list_all dim_ok ?dims" by simp
          let ?ws = "structureWarnings ?dims src"
          from None Inr vd t ne ge gs gd t1 t2
          have "validateAdaptScaleResponse g src =
              Inr \<lparr>valid = True, v_error = None,
                   warnings = (if length ?ws > 0 then Some ?ws else None)\<rparr>"
            by (simp add: validateAdaptScaleResponse_def elems_case Let_def)
          with ret have r: "r = \<lparr>valid = True, v_error = None,
                   warnings = (if length ?ws > 0 then Some ?ws else None)\<rparr>" by simp
          have w: "(?ws \<noteq> []) = (case src of None \<Rightarrow> False | Some s \<Rightarrow> structure_differs g s)"
            unfolding structureWarnings_iff [OF ok] structure_differs_def by simp
          from ok ro w show ?thesis unfolding r by auto
        next
          case (Some msg)
          with rd(1) have bad: "\<not> list_all dim_ok ?dims" by simp
          from Some rd(2) obtain f where f: "dims_offence ?dims = Some f" "names_field f msg"
            by blast
          from Some Inr vd t ne ge gs gd t1 t2
          have "validateAdaptScaleResponse g src = Inr (invalid msg)"
            by (simp add: validateAdaptScaleResponse_def elems_case Let_def)
          with ret have r: "r = invalid msg" by simp
          from f off have off': "offending_field g = Some f" by simp
          from bad ro f off' names_only [OF off' f(2)]
          show ?thesis unfolding r by (simp add: invalid_def)
        qed
      qed
    qed
  qed
qed

lemma adapt_validation_returns:
  assumes t: "truthy g" and ne: "\<not> truthy (field g ''error'')" and nn: "no_nullish_elements g"
  shows "\<exists>r. validateAdaptScaleResponse g src = Inr r"
proof -
  from t have "\<not> nullish g" by (rule truthy_not_nullish)
  then have gp: "\<And>k. get_prop g k = Inr (field g k)" by (rule get_prop_field)
  from nn validateDimensions_total [of "elems (field g ''dimensions'')" 0]
  obtain rd where rd: "validateDimensions (elems (field g ''dimensions'')) 0 = Inr rd"
    unfolding no_nullish_elements_def by blast
  show ?thesis
    using t ne rd
    by (cases rd) (simp_all add: validateAdaptScaleResponse_def gp elems_case Let_def)
qed

text \<open>
  Claim C5, as the code has it. A falsy payload is rejected with \<open>No response\<close>. A
  payload with a truthy \<open>error\<close> field is rejected with the value of that field as the
  diagnostic, whatever its other fields hold. For every other payload, whenever the
  validator returns: the result is valid exactly when every required field is present
  and well-typed; when it is not, the diagnostic is a string whose last word is the first
  offending field, and no other required field; when it is, there is no diagnostic, and
  warnings are attached exactly when a source scale is given and its number of
  dimensions, or the number of items of a dimension both have, differs from the
  payload's. The validator returns on every such payload that has no \<^verbatim>\<open>null\<close> among
  its dimensions and their items.
\<close>

theorem adapt_validation:
  "(\<not> truthy g \<longrightarrow> validateAdaptScaleResponse g src = Inr (invalid ''No response'')) \<and>
   (truthy g \<and> truthy (field g ''error'') \<longrightarrow>
      validateAdaptScaleResponse g src =
        Inr \<lparr>valid = False, v_error = Some (field g ''error''), warnings = None\<rparr>) \<and>
   (truthy g \<and> \<not> truthy (field g ''error'') \<and> validateAdaptScaleResponse g src = Inr r \<longrightarrow>
      (valid r \<longleftrightarrow> required_ok g) \<and>
      (\<not> required_ok g \<longrightarrow>
         (\<exists>f msg. offending_field g = Some f \<and> v_error r = Some (JStr msg) \<and>
            names_field f msg \<and>
            (\<forall>f' \<in> set required_fields. names_field f' msg \<longrightarrow> f' = f))) \<and>
      (required_ok g \<longrightarrow>
         v_error r = None \<and>
         (warnings r \<noteq> None \<longleftrightarrow>
            (case src of None \<Rightarrow> False | Some s \<Rightarrow> structure_differs g s)))) \<and>
   (truthy g \<and> \<not> truthy (field g ''error'') \<and> no_nullish_elements g \<longrightarrow>
      (\<exists>r'. validateAdaptScaleResponse g src = Inr r'))"
proof -
  have c1: "\<not> truthy g \<longrightarrow> validateAdaptScaleResponse g src = Inr (invalid ''No response'')"
    by (simp add: validateAdaptScaleResponse_def)
  have c2: "truthy g \<and> truthy (field g ''error'') \<longrightarrow>
      validateAdaptScaleResponse g src =
        Inr \<lparr>valid = False, v_error = Some (field g ''error''), warnings = None\<rparr>"
  proof
    assume a: "truthy g \<and> truthy (field g ''error'')"
    then have "get_prop g ''error'' = Inr (field g ''error'')"
      by (simp add: get_prop_field truthy_not_nullish)
    with a show "validateAdaptScaleResponse g src =
        Inr \<lparr>valid = False, v_error = Some (field g ''error''), warnings = None\<rparr>"
      by (simp add: validateAdaptScaleResponse_def)
  qed
  have c3: "truthy g \<and> \<not> truthy (field g ''error'') \<and> validateAdaptScaleResponse g src = Inr r \<longrightarrow>
      (valid r \<longleftrightarrow> required_ok g) \<and>
      (\<not> required_ok g \<longrightarrow>
         (\<exists>f msg. offending_field g = Some f \<and> v_error r = Some (JStr msg) \<and>
            names_field f msg \<and>
            (\<forall>f' \<in> set required_fields. names_field f' msg \<longrightarrow> f' = f))) \<and>
      (required_ok g \<longrightarrow>
         v_error r = None \<and>
         (warnings r \<noteq> None \<longleftrightarrow>
            (case src of None \<Rightarrow> False | Some s \<Rightarrow> structure_differs g s)))"
  proof
    assume "truthy g \<and> \<not> truthy (field g ''error'') \<and> validateAdaptScaleResponse g src = Inr r"
    then have t: "truthy g" and ne: "\<not> truthy (field g ''error'')"
      and ret: "validateAdaptScaleResponse g src = Inr r" by simp_all
    from adapt_validation_returned [OF t ne ret]
    show "(valid r \<longleftrightarrow> required_ok g) \<and>
      (\<not> required_ok g \<longrightarrow>
         (\<exists>f msg. offending_field g = Some f \<and> v_error r = Some (JStr msg) \<and>
            names_field f msg \<and>
            (\<forall>f' \<in> set required_fields. names_field f' msg \<longrightarrow> f' = f))) \<and>
      (required_ok g \<longrightarrow>
         v_error r = None \<and>
         (warnings r \<noteq> None \<longleftrightarrow>
            (case src of None \<Rightarrow> False | Some s \<Rightarrow> structure_differs g s)))" .
  qed
  have c4: "truthy g \<and> \<not> truthy (field g ''error'') \<and> no_nullish_elements g \<longrightarrow>
      (\<exists>r'. validateAdaptScaleResponse g src = Inr r')"
    using adapt_validation_returns by blast
  show ?thesis using c1 c2 c3 c4 by (intro conjI) assumption+
qed

theorem adapt_validation_witness:
  "\<not> truthy JNull \<and>
   validateAdaptScaleResponse JNull (Some source_scale) = Inr (invalid ''No response'') \<and>
   truthy error_payload \<and> truthy (field error_payload ''error'') \<and>
   validateAdaptScaleResponse error_payload (Some source_scale) =
     Inr \<lparr>valid = False, v_error = Some (JStr ''timeout''), warnings = None\<rparr> \<and>
   truthy textless_payload \<and> \<not> truthy (field textless_payload ''error'') \<and>
   \<not> required_ok textless_payload \<and>
   offending_field textless_payload = Some ''text'' \<and>
   validateAdaptScaleResponse textless_payload (Some source_scale) =
     Inr (invalid (''Item 2 in '' @ [CHR 0x22] @ ''Kerajinan'' @ [CHR 0x22] @ '' missing text'')) \<and>
   truthy good_payload \<and> \<not> truthy (field good_payload ''error'') \<and>
   no_nullish_elements good_payload \<and> required_ok good_payload \<and>
   structure_differs good_payload source_scale \<and>
   validateAdaptScaleResponse good_payload (Some source_scale) =
     Inr \<lparr>valid = True, v_error = None,
          warnings = Some [''Item count mismatch in dimension '' @ [CHR 0x22] @ ''Kerajinan''
                             @ [CHR 0x22] @ '': expected=2, got=1'']\<rparr>"
proof -
  have n1: "\<not> truthy JNull" by simp
  from adapt_validation [of JNull "Some source_scale"] n1
  have n2: "validateAdaptScaleResponse JNull (Some source_scale) = Inr (invalid ''No response'')"
    by blast
  have e1: "truthy error_payload" by (simp add: error_payload_def)
  have e2: "truthy (field error_payload ''error'')" by code_simp
  have e3: "field error_payload ''error'' = JStr ''timeout''" by code_simp
  from adapt_validation [of error_payload "Some source_scale"] e1 e2
  have e4: "validateAdaptScaleResponse error_payload (Some source_scale) =
     Inr \<lparr>valid = False, v_error = Some (JStr ''timeout''), warnings = None\<rparr>"
    unfolding e3 by blast
  have b1: "truthy textless_payload" by (simp add: textless_payload_def)
  have b2: "\<not> truthy (field textless_payload ''error'')" by code_simp
  have b4: "validateAdaptScaleResponse textless_payload (Some source_scale) =
     Inr (invalid (''Item 2 in '' @ [CHR 0x22] @ ''Kerajinan'' @ [CHR 0x22] @ '' missing text''))"
    by code_simp
  have b5: "offending_field textless_payload = Some ''text''" by code_simp
  from adapt_validation [of textless_payload "Some source_scale"
      "invalid (''Item 2 in '' @ [CHR 0x22] @ ''Kerajinan'' @ [CHR 0x22] @ '' missing text'')"]
    b1 b2 b4
  have b6: "\<not> required_ok textless_payload" by (simp add: invalid_def)
  have g1: "truthy good_payload" by (simp add: good_payload_def)
  have g2: "\<not> truthy (field good_payload ''error'')" by code_simp
  have g3: "no_nullish_elements good_payload" by code_simp
  have g4: "validateAdaptScaleResponse good_payload (Some source_scale) =
     Inr \<lparr>valid = True, v_error = None,
          warnings = Some [''Item count mismatch in dimension '' @ [CHR 0x22] @ ''Kerajinan''
                             @ [CHR 0x22] @ '': expected=2, got=1'']\<rparr>"
    by code_simp
  from adapt_validation [of good_payload "Some source_scale"
      "\<lparr>valid = True, v_error = None,
          warnings = Some [''Item count mismatch in dimension '' @ [CHR 0x22] @ ''Kerajinan''
                             @ [CHR 0x22] @ '': expected=2, got=1'']\<rparr>"]
    g1 g2 g4
  have g5: "required_ok good_payload \<and> structure_differs good_payload source_scale" by simp
  from n1 n2 e1 e2 e4 b1 b2 b4 b5 b6 g1 g2 g3 g4 g5 show ?thesis by blast
qed

text \<open>
  The claim as stated fails on a payload that carries a truthy \<open>error\<close> field: all its
  required fields are present and well-typed, and the validator still rejects it, with
  the value of that field as the diagnostic.
\<close>

theorem adapt_validation_counterexample:
  "required_ok error_payload \<and>
   validateAdaptScaleResponse error_payload None =
     Inr \<lparr>valid = False, v_error = Some (JStr ''timeout''), warnings = None\<rparr>"
proof -
  have a: "required_ok error_payload" by code_simp
  have b: "validateAdaptScaleResponse error_payload None =
     Inr \<lparr>valid = False, v_error = Some (JStr ''timeout''), warnings = None\<rparr>" by code_simp
  from a b show ?thesis by simp
qed

text \<open>
  A \<^verbatim>\<open>null\<close> element of \<open>dimensions\<close> (or of a dimension's \<open>items\<close>) that the loops
  reach is not rejected with a diagnostic: reading its \<open>name\<close> throws. A \<^verbatim>\<open>null\<close>
  behind an offending field is never read.
\<close>

lemma null_dimension_throws:
  "validateAdaptScaleResponse null_dimension_payload None = Inl TypeError"
  by code_simp

lemma null_behind_offence_unread:
  "validateAdaptScaleResponse
     (JObj [(''scale_name'', JStr ''Skala Gen-Z''), (''dimensions'', JArr [JObj [], JNull])]) None
   = Inr (invalid ''Dimension 1 missing name'')"
  by code_simp

section \<open>Insertion in strict mode\<close>







section \<open>Item expansion\<close>

lemma expandItems_nth:
  "length (fst (expandItems sid dn srcI its idx cnt)) = length its \<and>
   snd (expandItems sid dn srcI its idx cnt) = cnt + length its \<and>
   (\<forall>k < length its. fst (expandItems sid dn srcI its idx cnt) ! k
        = expandItem sid dn srcI (its ! k) (idx + k) (cnt + k))"
proof (induction its arbitrary: idx cnt)
  case Nil
  then show ?case by simp
next
  case (Cons it its)
  obtain out c where r: "expandItems sid dn srcI its (idx + 1) (cnt + 1) = (out, c)" by force
  from Cons.IH [of "idx + 1" "cnt + 1"] r have ih:
    "length out = length its" "c = cnt + 1 + length its"
    "\<forall>k < length its. out ! k = expandItem sid dn srcI (its ! k) (idx + 1 + k) (cnt + 1 + k)"
    by simp_all
  have "\<forall>k < length (it # its).
      (expandItem sid dn srcI it idx cnt # out) ! k
        = expandItem sid dn srcI ((it # its) ! k) (idx + k) (cnt + k)"
  proof (intro allI impI)
    fix k assume "k < length (it # its)"
    then show "(expandItem sid dn srcI it idx cnt # out) ! k
        = expandItem sid dn srcI ((it # its) ! k) (idx + k) (cnt + k)"
      using ih(3) by (cases k) simp_all
  qed
  with r ih(1,2) show ?case by simp
qed

lemma expandItems_ids:
  "map item_id (fst (expandItems sid dn srcI its idx cnt))
     = map (\<lambda>n. sid @ ''-item-'' @ string_of_nat n) [cnt ..< cnt + length its]"
proof (induction its arbitrary: idx cnt)
  case Nil
  then show ?case by simp
next
  case (Cons it its)
  obtain out c where r: "expandItems sid dn srcI its (idx + 1) (cnt + 1) = (out, c)" by force
  from Cons.IH [of "idx + 1" "cnt + 1"] r
  have ih: "map item_id out = map (\<lambda>n. sid @ ''-item-'' @ string_of_nat n) [cnt + 1 ..< cnt + 1 + length its]"
    by simp
  have "[cnt ..< cnt + length (it # its)] = cnt # [Suc cnt ..< cnt + length (it # its)]"
    by (rule upt_conv_Cons) simp
  then have "[cnt ..< cnt + length (it # its)] = cnt # [cnt + 1 ..< cnt + 1 + length its]"
    by simp
  with r ih show ?case by (simp add: expandItem_def Let_def)
qed

lemma expandDimensions_ids:
  "map item_id (concat (map dim_items (expandDimensions sid src gd di cnt)))
     = map (\<lambda>n. sid @ ''-item-'' @ string_of_nat n) [cnt ..< cnt + length (concat (map gpt_items gd))]"
proof (induction gd arbitrary: di cnt)
  case Nil
  then show ?case by simp
next
  case (Cons gdim gd)
  let ?srcI = "case nth_opt src di of None \<Rightarrow> [] | Some sd \<Rightarrow> dim_items sd"
  obtain out c where r: "expandItems sid (gpt_name gdim) ?srcI (gpt_items gdim) 0 cnt = (out, c)"
    by force
  from expandItems_nth [of sid "gpt_name gdim" ?srcI "gpt_items gdim" 0 cnt] r
  have c: "c = cnt + length (gpt_items gdim)" by simp
  from expandItems_ids [of sid "gpt_name gdim" ?srcI "gpt_items gdim" 0 cnt] r
  have ids: "map item_id out
      = map (\<lambda>n. sid @ ''-item-'' @ string_of_nat n) [cnt ..< cnt + length (gpt_items gdim)]"
    by simp
  have split: "[cnt ..< cnt + length (concat (map gpt_items (gdim # gd)))]
      = [cnt ..< cnt + length (gpt_items gdim)]
        @ [c ..< c + length (concat (map gpt_items gd))]"
    unfolding c
    using upt_add_eq_append [of cnt "cnt + length (gpt_items gdim)" "length (concat (map gpt_items gd))"]
    by (simp add: add.assoc)
  from r show ?case
    unfolding split by (simp add: Let_def ids Cons.IH [of "Suc di" c])
qed

lemma expandDimensions_nth:
  "length (expandDimensions sid src gd di cnt) = length gd \<and>
   (\<forall>d < length gd. \<exists>c.
      expandDimensions sid src gd di cnt ! d =
        \<lparr>dim_name = gpt_name (gd ! d),
         dim_items = fst (expandItems sid (gpt_name (gd ! d))
                            (case nth_opt src (di + d) of None \<Rightarrow> [] | Some sd \<Rightarrow> dim_items sd)
                            (gpt_items (gd ! d)) 0 c)\<rparr>)"
proof (induction gd arbitrary: di cnt)
  case Nil
  then show ?case by simp
next
  case (Cons gdim gd)
  let ?srcI = "case nth_opt src di of None \<Rightarrow> [] | Some sd \<Rightarrow> dim_items sd"
  obtain out c where r: "expandItems sid (gpt_name gdim) ?srcI (gpt_items gdim) 0 cnt = (out, c)"
    by force
  then have eq: "expandDimensions sid src (gdim # gd) di cnt =
      \<lparr>dim_name = gpt_name gdim, dim_items = out\<rparr> # expandDimensions sid src gd (di + 1) c"
    by (simp add: Let_def)
  have "\<exists>c'. expandDimensions sid src (gdim # gd) di cnt ! d =
        \<lparr>dim_name = gpt_name ((gdim # gd) ! d),
         dim_items = fst (expandItems sid (gpt_name ((gdim # gd) ! d))
                            (case nth_opt src (di + d) of None \<Rightarrow> [] | Some sd \<Rightarrow> dim_items sd)
                            (gpt_items ((gdim # gd) ! d)) 0 c')\<rparr>"
    if "d < length (gdim # gd)" for d
  proof (cases d)
    case 0
    with r show ?thesis unfolding eq by (intro exI [of _ cnt]) simp
  next
    case (Suc d')
    with that have "d' < length gd" by simp
    with Cons.IH [of "di + 1" c] Suc show ?thesis unfolding eq by simp
  qed
  with Cons.IH [of "di + 1" c] show ?case unfolding eq by simp
qed

lemma expandItem_origin:
  "origin_item_id (expandItem sid dn srcI it idx cnt) =
     (case nth_opt srcI idx of
        None \<Rightarrow> ''unknown''
      | Some si \<Rightarrow> if item_id si = [] then ''unknown'' else item_id si)"
  by (simp add: expandItem_def Let_def)

lemma source_items_at:
  "nth_opt (case nth_opt src d of None \<Rightarrow> [] | Some sd \<Rightarrow> dim_items sd) i = source_item_at src d i"
  by (simp add: source_item_at_def nth_opt_def split: option.splits)

lemma assembled_items_shape:
  "map item_id (concat (map dim_items (expandWithRubrics gd sid src)))
     = map (\<lambda>n. sid @ ''-item-'' @ string_of_nat n) [1 ..< 1 + length (concat (map gpt_items gd))] \<and>
   length (expandWithRubrics gd sid src) = length gd \<and>
   (\<forall>d < length gd.
      length (dim_items (expandWithRubrics gd sid src ! d)) = length (gpt_items (gd ! d)) \<and>
      (\<forall>i < length (gpt_items (gd ! d)).
         origin_item_id (dim_items (expandWithRubrics gd sid src ! d) ! i) =
           (case source_item_at src d i of
              None \<Rightarrow> ''unknown''
            | Some si \<Rightarrow> if item_id si = [] then ''unknown'' else item_id si)))"
proof (intro conjI allI impI)
  show "map item_id (concat (map dim_items (expandWithRubrics gd sid src)))
     = map (\<lambda>n. sid @ ''-item-'' @ string_of_nat n) [1 ..< 1 + length (concat (map gpt_items gd))]"
    unfolding expandWithRubrics_def by (rule expandDimensions_ids)
next
  show "length (expandWithRubrics gd sid src) = length gd"
    unfolding expandWithRubrics_def using expandDimensions_nth by blast
next
  fix d assume d: "d < length gd"
  with expandDimensions_nth [of sid src gd 0 1] obtain c where
    c: "expandWithRubrics gd sid src ! d =
        \<lparr>dim_name = gpt_name (gd ! d),
         dim_items = fst (expandItems sid (gpt_name (gd ! d))
                            (case nth_opt src d of None \<Rightarrow> [] | Some sd \<Rightarrow> dim_items sd)
                            (gpt_items (gd ! d)) 0 c)\<rparr>"
    unfolding expandWithRubrics_def by auto
  show "length (dim_items (expandWithRubrics gd sid src ! d)) = length (gpt_items (gd ! d))"
    unfolding c using expandItems_nth by simp
  fix i assume "i < length (gpt_items (gd ! d))"
  then show "origin_item_id (dim_items (expandWithRubrics gd sid src ! d) ! i) =
           (case source_item_at src d i of
              None \<Rightarrow> ''unknown''
            | Some si \<Rightarrow> if item_id si = [] then ''unknown'' else item_id si)"
    unfolding c using expandItems_nth [of sid "gpt_name (gd ! d)" _ "gpt_items (gd ! d)" 0 c]
    by (simp add: expandItem_origin source_items_at)
qed

text \<open>
  Claim C7. Counting the items of the assembled node across all its dimensions, in order
  and from 1, the \<open>n\<close>-th has \<open>item_id\<close> \<open>{new_id}-item-{n}\<close>: the counter is never
  reset. The assembled node has the payload's dimensions and items, and the
  \<open>origin_item_id\<close> of item \<open>i\<close> of dimension \<open>d\<close> is the \<open>item_id\<close> of the source item
  at that position, or \<open>unknown\<close> when the source has no item there. The items of the
  source carry an id, a non-empty string: every constructor of items gives them one.
\<close>

theorem assembled_item_ids:
  assumes "\<forall>sd \<in> set src. \<forall>si \<in> set (dim_items sd). item_id si \<noteq> []"
  shows "map item_id (concat (map dim_items (expandWithRubrics gd sid src)))
     = map (\<lambda>n. sid @ ''-item-'' @ string_of_nat n) [1 ..< 1 + length (concat (map gpt_items gd))] \<and>
   length (expandWithRubrics gd sid src) = length gd \<and>
   (\<forall>d < length gd.
      length (dim_items (expandWithRubrics gd sid src ! d)) = length (gpt_items (gd ! d)) \<and>
      (\<forall>i < length (gpt_items (gd ! d)).
         origin_item_id (dim_items (expandWithRubrics gd sid src ! d) ! i) =
           (case source_item_at src d i of
              None \<Rightarrow> ''unknown''
            | Some si \<Rightarrow> item_id si)))"
proof -
  have ne: "item_id si \<noteq> []" if "source_item_at src d i = Some si" for d i si
  proof -
    from that obtain sd where "nth_opt src d = Some sd" "nth_opt (dim_items sd) i = Some si"
      by (auto simp: source_item_at_def split: option.splits)
    then have "sd \<in> set src" "si \<in> set (dim_items sd)"
      by (auto simp: nth_opt_def split: if_splits)
    with assms show ?thesis by blast
  qed
  have eq: "(case source_item_at src d i of None \<Rightarrow> ''unknown''
             | Some si \<Rightarrow> if item_id si = [] then ''unknown'' else item_id si) =
            (case source_item_at src d i of None \<Rightarrow> ''unknown'' | Some si \<Rightarrow> item_id si)"
    for d i
    using ne [of d i] by (cases "source_item_at src d i") simp_all
  from assembled_items_shape [of gd sid src] show ?thesis unfolding eq .
qed

theorem assembled_item_ids_witness:
  "map item_id (concat (map dim_items
       (expandWithRubrics gpt_dims ''skala-asli-branch-1'' (dimensions source_scale))))
     = [''skala-asli-branch-1-item-1'', ''skala-asli-branch-1-item-2'',
        ''skala-asli-branch-1-item-3'', ''skala-asli-branch-1-item-4''] \<and>
   length (expandWithRubrics gpt_dims ''skala-asli-branch-1'' (dimensions source_scale)) = 2 \<and>
   origin_item_id (dim_items
       (expandWithRubrics gpt_dims ''skala-asli-branch-1'' (dimensions source_scale) ! 0) ! 1) = ''2'' \<and>
   origin_item_id (dim_items
       (expandWithRubrics gpt_dims ''skala-asli-branch-1'' (dimensions source_scale) ! 0) ! 2) = ''unknown'' \<and>
   origin_item_id (dim_items
       (expandWithRubrics gpt_dims ''skala-asli-branch-1'' (dimensions source_scale) ! 1) ! 0) = ''unknown''"
proof -
  let ?out = "expandWithRubrics gpt_dims ''skala-asli-branch-1'' (dimensions source_scale)"
  have ne: "\<forall>sd \<in> set (dimensions source_scale). \<forall>si \<in> set (dim_items sd). item_id si \<noteq> []"
    by (simp add: source_scale_def mk_item_def)
  have t: "map item_id (concat (map dim_items ?out))
     = map (\<lambda>n. ''skala-asli-branch-1'' @ ''-item-'' @ string_of_nat n)
         [1 ..< 1 + length (concat (map gpt_items gpt_dims))] \<and>
   length ?out = length gpt_dims \<and>
   (\<forall>d < length gpt_dims.
      length (dim_items (?out ! d)) = length (gpt_items (gpt_dims ! d)) \<and>
      (\<forall>i < length (gpt_items (gpt_dims ! d)).
         origin_item_id (dim_items (?out ! d) ! i) =
           (case source_item_at (dimensions source_scale) d i of
              None \<Rightarrow> ''unknown''
            | Some si \<Rightarrow> item_id si)))"
    by (rule assembled_item_ids [OF ne])
  have ids: "map (\<lambda>n. ''skala-asli-branch-1'' @ ''-item-'' @ string_of_nat n)
         [1 ..< 1 + length (concat (map gpt_items gpt_dims))]
     = [''skala-asli-branch-1-item-1'', ''skala-asli-branch-1-item-2'',
        ''skala-asli-branch-1-item-3'', ''skala-asli-branch-1-item-4'']" by code_simp
  have len: "length gpt_dims = 2" "length (gpt_items (gpt_dims ! 0)) = 3"
    "length (gpt_items (gpt_dims ! Suc 0)) = Suc 0" by code_simp+
  have src: "source_item_at (dimensions source_scale) 0 (Suc 0) = Some (mk_item ''2'' [''Kemalasan''])"
    "source_item_at (dimensions source_scale) 0 2 = None"
    "source_item_at (dimensions source_scale) (Suc 0) 0 = None" by code_simp+
  have idn: "item_id (mk_item ''2'' [''Kemalasan'']) = ''2''" by (simp add: mk_item_def)
  from t have o: "\<And>d i. d < 2 \<Longrightarrow> i < length (gpt_items (gpt_dims ! d)) \<Longrightarrow>
      origin_item_id (dim_items (?out ! d) ! i) =
           (case source_item_at (dimensions source_scale) d i of
              None \<Rightarrow> ''unknown''
            | Some si \<Rightarrow> item_id si)"
    unfolding len(1) by blast
  have o1: "origin_item_id (dim_items (?out ! 0) ! Suc 0) = ''2''"
    using o [of 0 "Suc 0"] by (simp add: len src idn)
  have o2: "origin_item_id (dim_items (?out ! 0) ! 2) = ''unknown''"
    using o [of 0 2] by (simp add: len src)
  have o3: "origin_item_id (dim_items (?out ! Suc 0) ! 0) = ''unknown''"
    using o [of "Suc 0" 0] by (simp add: len src)
  from t ids len(1) o1 o2 o3 show ?thesis by simp
qed

lemma expandItem_rubrics:
  assumes "nth_opt srcI idx = Some si"
  shows "(gpt_current_rubric it = None \<longrightarrow>
            current_rubric (expandItem sid dn srcI it idx cnt) = baseline_rubric si \<and>
            rubric_source (expandItem sid dn srcI it idx cnt) = ''parent'') \<and>
         (\<forall>tags. gpt_current_rubric it = Some tags \<and> tags \<noteq> [] \<longrightarrow>
            current_rubric (expandItem sid dn srcI it idx cnt) = tags \<and>
            rubric_source (expandItem sid dn srcI it idx cnt) = ''gpt'') \<and>
         (gpt_current_rubric it = Some [] \<longrightarrow>
            current_rubric (expandItem sid dn srcI it idx cnt) = baseline_rubric si \<and>
            rubric_source (expandItem sid dn srcI it idx cnt) = ''gpt'')"
  using assms by (auto simp: expandItem_def Let_def)

text \<open>
  Claim C6 at the input where the code departs from it. An item that supplies an empty
  \<^verbatim>\<open>current_rubric\<close> gets the source item's \<open>baseline_rubric\<close> as its
  \<open>current_rubric\<close>, as the claim says, and \<open>rubric_source\<close> \<open>gpt\<close>, where the claim
  says the inherited-from-parent marker \<open>parent\<close>: the test for \<open>rubric_source\<close> is
  \<^verbatim>\<open>item.current_rubric ? 'gpt' : 'parent'\<close>, without the length test of the line that
  picks \<open>current_rubric\<close>, and an empty array is truthy.
\<close>

theorem empty_rubric_marked_gpt:
  "expandWithRubrics empty_rubric_dims ''skala-asli-branch-1'' (dimensions source_scale) =
     [\<lparr>dim_name = ''Kerajinan'',
       dim_items =
         [\<lparr>item_id = ''skala-asli-branch-1-item-1'', origin_item_id = ''1'',
           item_text = ''Aku rajin'',
           baseline_rubric = [''Kerajinan'', ''Merasa''],
           current_rubric = [''Kerajinan'', ''Merasa''],
           dimension = ''Kerajinan'', rubric_source = ''gpt''\<rparr>]\<rparr>]"
  by code_simp

end
